theory Spec2Isabelle
  imports Main "HOL-Library.AList" "HOL-Library.Multiset"
begin

section \<open>Strings and paths\<close>

text \<open>
  A Go string is a sequence of bytes and is modelled as a \<^typ>\<open>string\<close>, a list of
  characters of eight bits. The functions of this section are the functions of Go's
  packages \<^verbatim>\<open>strings\<close> and \<^verbatim>\<open>path/filepath\<close> that the comparison engine calls; they
  are written from the documentation of these packages. The platform is one whose
  path separator is the forward slash.
\<close>

definition bslash :: char where
  "bslash = CHR 0x5C"

definition newline :: char where
  "newline = CHR 0x0A"

definition HasPrefix :: "string \<Rightarrow> string \<Rightarrow> bool" where
  "HasPrefix s pre = (length pre \<le> length s \<and> take (length pre) s = pre)"

definition HasSuffix :: "string \<Rightarrow> string \<Rightarrow> bool" where
  "HasSuffix s suf = (length suf \<le> length s \<and> drop (length s - length suf) s = suf)"

definition TrimPrefix :: "string \<Rightarrow> string \<Rightarrow> string" where
  "TrimPrefix s pre = (if HasPrefix s pre then drop (length pre) s else s)"

text \<open>\<^verbatim>\<open>strings.Index\<close>: the position of the first occurrence, \<open>None\<close> for Go's \<open>-1\<close>.\<close>

fun Index :: "string \<Rightarrow> string \<Rightarrow> nat option" where
  "Index [] sep = (if sep = [] then Some 0 else None)"
| "Index (c # cs) sep =
     (if HasPrefix (c # cs) sep then Some 0 else map_option Suc (Index cs sep))"

text \<open>
  \<^verbatim>\<open>strings.Split(s, sep)\<close>: the substrings between the occurrences of \<open>sep\<close>, found
  from the left; with an empty separator the string is split after each character.
\<close>

function Split :: "string \<Rightarrow> string \<Rightarrow> string list" where
  "Split s sep =
     (if sep = [] then map (\<lambda>c. [c]) s
      else (case Index s sep of
              None \<Rightarrow> [s]
            | Some m \<Rightarrow> take m s # Split (drop (m + length sep) s) sep))"
  by pat_completeness auto
termination
proof (relation "measure (\<lambda>(s, sep). length s)")
  show "wf (measure (\<lambda>(s, sep). length s))" by simp
next
  fix s sep :: string and m :: nat
  assume sep: "sep \<noteq> []" and idx: "Index s sep = Some m"
  from sep idx have "s \<noteq> []" by (cases s) auto
  moreover from sep have "0 < m + length sep" by simp
  ultimately have "length (drop (m + length sep) s) < length s" by simp
  then show "((drop (m + length sep) s, sep), (s, sep)) \<in> measure (\<lambda>(s, sep). length s)"
    by simp
qed

declare Split.simps [simp del]

text \<open>
  \<^verbatim>\<open>strings.ReplaceAll(s, old, new)\<close>: the non-overlapping occurrences of \<open>old\<close>, found from
  the left, are replaced; an empty \<open>old\<close> matches before each character and at the end.
\<close>

function ReplaceAll :: "string \<Rightarrow> string \<Rightarrow> string \<Rightarrow> string" where
  "ReplaceAll s old new =
     (if old = [] then concat (map (\<lambda>c. new @ [c]) s) @ new
      else (case s of
              [] \<Rightarrow> []
            | c # cs \<Rightarrow>
                if HasPrefix s old then new @ ReplaceAll (drop (length old) s) old new
                else c # ReplaceAll cs old new))"
  by pat_completeness auto
termination
  by (relation "measure (\<lambda>(s, old, new). length s)") auto

declare ReplaceAll.simps [simp del]

text \<open>\<^verbatim>\<open>strings.Join\<close>.\<close>

fun Join :: "string list \<Rightarrow> string \<Rightarrow> string" where
  "Join [] sep = []"
| "Join [x] sep = x"
| "Join (x # y # ys) sep = x @ sep @ Join (y # ys) sep"

text \<open>
  \<^verbatim>\<open>filepath.ToSlash\<close> replaces the platform's separator by a slash, and returns the path
  as it is where the separator is the slash.
\<close>

definition Separator :: char where
  "Separator = CHR ''/''"

definition ToSlash :: "string \<Rightarrow> string" where
  "ToSlash path =
     (if Separator = CHR ''/'' then path
      else map (\<lambda>c. if c = Separator then CHR ''/'' else c) path)"

text \<open>
  \<^verbatim>\<open>filepath.Base\<close>: the last element of the path, after trailing separators are
  removed; \<open>.\<close> for the empty path and the separator for a path of separators only.
\<close>

definition Base :: "string \<Rightarrow> string" where
  "Base path =
     (if path = [] then ''.''
      else (let stripped = rev (dropWhile (\<lambda>c. c = Separator) (rev path));
                elem = rev (takeWhile (\<lambda>c. c \<noteq> Separator) (rev stripped))
            in if elem = [] then [Separator] else elem))"

text \<open>
  \<^verbatim>\<open>filepath.Ext\<close>: the suffix that starts at the last dot of the last element of the
  path, empty when that element has no dot.
\<close>

fun ext_scan :: "string \<Rightarrow> string \<Rightarrow> string" where
  "ext_scan [] acc = []"
| "ext_scan (c # cs) acc =
     (if c = Separator then []
      else if c = CHR ''.'' then c # acc
      else ext_scan cs (c # acc))"

definition Ext :: "string \<Rightarrow> string" where
  "Ext path = ext_scan (rev path) []"

section \<open>Exclusion rules\<close>

text \<open>\<^verbatim>\<open>models.ExcludeRule\<close>. The field \<open>Type\<close> is \<open>glob\<close> or \<open>regex\<close>.\<close>

record ExcludeRule =
  Pattern :: string
  Type :: string
  IsDir :: bool
  Enabled :: bool
  Comment :: string

text \<open>
  The compiled rule of \<^verbatim>\<open>compare.go\<close>. Its field \<open>regex\<close> is a pointer that stays
  \<open>nil\<close> when the pattern does not compile: \<open>None\<close> here.
\<close>

record 'r compiledRule =
  rule :: ExcludeRule
  regex :: "'r option"
  pattern :: string

record 'r ExcludeMatcher =
  rules :: "ExcludeRule list"
  regexCache :: "(string \<times> 'r) list"
  compiledRules :: "'r compiledRule list"

text \<open>
  \<^verbatim>\<open>regexp.QuoteMeta\<close> escapes, with a backslash, each of the characters
  \<^verbatim>\<open>\.+*?()|[]{}^$\<close>.
\<close>

definition special :: "char \<Rightarrow> bool" where
  "special b = (b \<in> set (bslash # ''.+*?()|[]{}^$''))"

fun QuoteMeta :: "string \<Rightarrow> string" where
  "QuoteMeta [] = []"
| "QuoteMeta (c # cs) =
     (if special c then bslash # c # QuoteMeta cs else c # QuoteMeta cs)"

definition globToRegex :: "string \<Rightarrow> string" where
  "globToRegex pat =
     (let result = QuoteMeta pat;
          result = ReplaceAll result [bslash, CHR ''*'', bslash, CHR ''*''] ''.*'';
          result = ReplaceAll result [bslash, CHR ''*''] ''[^/]*'';
          result = ReplaceAll result [bslash, CHR ''?''] ''.''
      in ''^'' @ result @ ''$'')"

text \<open>
  The regular expressions are those of Go's package \<^verbatim>\<open>regexp\<close>. The matcher takes its
  two functions as parameters: \<open>rc\<close> is \<^verbatim>\<open>regexp.Compile\<close>, with \<open>None\<close> for a pattern
  that does not compile, and \<open>rm\<close> is \<^verbatim>\<open>MatchString\<close>.
\<close>

fun compile :: "(string \<Rightarrow> 'r option) \<Rightarrow> ExcludeRule list \<Rightarrow> 'r compiledRule list
    \<Rightarrow> 'r compiledRule list" where
  "compile rc [] crs = crs"
| "compile rc (r # rs) crs =
     (if \<not> Enabled r then compile rc rs crs
      else
        (let cr = \<lparr>rule = r, regex = None, pattern = []\<rparr>;
             cr = (if Type r = ''regex''
                   then (case rc (Pattern r) of Some re \<Rightarrow> cr\<lparr>regex := Some re\<rparr> | None \<Rightarrow> cr)
                   else
                     (let cr = cr\<lparr>pattern := Pattern r\<rparr>;
                          regexPattern = globToRegex (Pattern r)
                      in (case rc regexPattern of
                            Some re \<Rightarrow> cr\<lparr>regex := Some re\<rparr>
                          | None \<Rightarrow> cr)))
         in compile rc rs (crs @ [cr])))"

definition NewExcludeMatcher :: "(string \<Rightarrow> 'r option) \<Rightarrow> ExcludeRule list \<Rightarrow> 'r ExcludeMatcher"
  where
  "NewExcludeMatcher rc rs =
     (let m = \<lparr>rules = rs, regexCache = [], compiledRules = []\<rparr>
      in m\<lparr>compiledRules := compile rc (rules m) (compiledRules m)\<rparr>)"

text \<open>
  \<open>pathContainsDir\<close> tests every part of the path but the last one, the file name.
  \<open>Split\<close> returns at least one part, so that the slice of the source is in range.
  The source calls it for a rule with a compiled expression only.
\<close>

definition pathContainsDir :: "('r \<Rightarrow> string \<Rightarrow> bool) \<Rightarrow> string \<Rightarrow> 'r compiledRule \<Rightarrow> bool" where
  "pathContainsDir rm path cr =
     (let parts = Split path ''/''
      in case regex cr of
           None \<Rightarrow> False
         | Some re \<Rightarrow> list_ex (\<lambda>part. rm re part) (take (length parts - 1) parts))"

fun excludeLoop :: "('r \<Rightarrow> string \<Rightarrow> bool) \<Rightarrow> 'r compiledRule list \<Rightarrow> string \<Rightarrow> bool \<Rightarrow> bool"
  where
  "excludeLoop rm [] path isDir = False"
| "excludeLoop rm (cr # crs) path isDir =
     (case regex cr of
        None \<Rightarrow> excludeLoop rm crs path isDir
      | Some re \<Rightarrow>
          if IsDir (rule cr) \<and> \<not> isDir then
            (if pathContainsDir rm path cr then True else excludeLoop rm crs path isDir)
          else if IsDir (rule cr) then
            (if list_ex (\<lambda>part. rm re part) (Split path ''/'') then True
             else excludeLoop rm crs path isDir)
          else
            (let fileName = Base path
             in if rm re fileName \<or> rm re path then True
                else excludeLoop rm crs path isDir))"

definition ShouldExclude :: "('r \<Rightarrow> string \<Rightarrow> bool) \<Rightarrow> 'r ExcludeMatcher \<Rightarrow> string \<Rightarrow> bool \<Rightarrow> bool"
  where
  "ShouldExclude rm m path isDir = excludeLoop rm (compiledRules m) (ToSlash path) isDir"

section \<open>The regular expressions of the glob translation\<close>

text \<open>
  A model of Go's \<^verbatim>\<open>regexp\<close> on the part of its syntax that \<open>globToRegex\<close> writes:
  the anchors \<open>^\<close> and \<open>$\<close> (the start and the end of the text), a character that
  stands for itself, an escaped punctuation character, the dot (any character but
  the newline), the negated class of one character (any other character, the newline
  too), and the star after one of these. \<open>regexp_Compile\<close> answers \<open>None\<close> for a
  pattern that Go rejects and for every pattern outside this part of the syntax, so
  that it stands for \<^verbatim>\<open>regexp.Compile\<close> on the translated globs only. Go reads a
  pattern and a text as UTF-8, character by character, and rejects a pattern that is
  not valid UTF-8; the model reads one \<^typ>\<open>char\<close> as one character, as Go does on
  ASCII text. So the model stands for Go on ASCII patterns and ASCII texts.
\<close>

datatype rx_atom = RLit char | RAnyNotNL | RNot char

datatype rx_item = RBegin | REnd | RChar rx_atom | RStar rx_atom

type_synonym regexp = "rx_item list"

definition parse_atom :: "string \<Rightarrow> (rx_atom \<times> string) option" where
  "parse_atom s =
     (case s of
        [] \<Rightarrow> None
      | c # cs \<Rightarrow>
          if c = CHR ''.'' then Some (RAnyNotNL, cs)
          else if c = bslash then
            (case cs of
               [] \<Rightarrow> None
             | d # ds \<Rightarrow> if special d then Some (RLit d, ds) else None)
          else if c = CHR ''['' then
            (case cs of
               n # x # e # ds \<Rightarrow>
                 if n = CHR ''^'' \<and> e = CHR '']'' \<and> \<not> special x \<and> x \<noteq> CHR ''-'' \<and> x \<noteq> CHR '':''
                 then Some (RNot x, ds) else None
             | _ \<Rightarrow> None)
          else if special c then None
          else Some (RLit c, cs))"

function regexp_Compile :: "string \<Rightarrow> regexp option" where
  "regexp_Compile [] = Some []"
| "regexp_Compile (c # cs) =
     (if c = CHR ''^'' then map_option (Cons RBegin) (regexp_Compile cs)
      else if c = CHR ''$'' then map_option (Cons REnd) (regexp_Compile cs)
      else (case parse_atom (c # cs) of
              None \<Rightarrow> None
            | Some (a, rest) \<Rightarrow>
                (case rest of
                   [] \<Rightarrow> Some [RChar a]
                 | d # rest' \<Rightarrow>
                     if d = CHR ''*'' then map_option (Cons (RStar a)) (regexp_Compile rest')
                     else map_option (Cons (RChar a)) (regexp_Compile rest))))"
  by pat_completeness auto
termination
proof (relation "measure length")
  show "wf (measure length)" by simp
next
  fix c :: char and cs :: string
  show "(cs, c # cs) \<in> measure length" by simp
  show "(cs, c # cs) \<in> measure length" by simp
next
  fix c d :: char and cs rest rest' :: string and x :: "rx_atom \<times> string" and a :: rx_atom
  assume pa: "parse_atom (c # cs) = Some x" and x: "(a, rest) = x" and r: "rest = d # rest'"
  from pa x have "length rest \<le> length cs"
    by (auto simp: parse_atom_def split: if_splits list.splits)
  with r show "(rest', c # cs) \<in> measure length" by simp
  from \<open>length rest \<le> length cs\<close> r show "(rest, c # cs) \<in> measure length" by simp
qed

fun atom_ok :: "rx_atom \<Rightarrow> char \<Rightarrow> bool" where
  "atom_ok (RLit c) x = (x = c)"
| "atom_ok RAnyNotNL x = (x \<noteq> newline)"
| "atom_ok (RNot c) x = (x \<noteq> c)"

text \<open>
  \<open>match_here re atStart s\<close>: the expression matches a prefix of \<open>s\<close>; \<open>atStart\<close> says
  that \<open>s\<close> is the whole text.
\<close>

fun match_here :: "regexp \<Rightarrow> bool \<Rightarrow> string \<Rightarrow> bool" where
  "match_here [] atStart s = True"
| "match_here (RBegin # re) atStart s = (atStart \<and> match_here re atStart s)"
| "match_here (REnd # re) atStart s = (s = [] \<and> match_here re atStart s)"
| "match_here (RChar a # re) atStart [] = False"
| "match_here (RChar a # re) atStart (x # s) = (atom_ok a x \<and> match_here re False s)"
| "match_here (RStar a # re) atStart [] = match_here re atStart []"
| "match_here (RStar a # re) atStart (x # s) =
     (match_here re atStart (x # s) \<or> (atom_ok a x \<and> match_here (RStar a # re) False s))"

fun match_from :: "regexp \<Rightarrow> bool \<Rightarrow> string \<Rightarrow> bool" where
  "match_from re atStart [] = match_here re atStart []"
| "match_from re atStart (x # s) = (match_here re atStart (x # s) \<or> match_from re False s)"

text \<open>\<^verbatim>\<open>MatchString\<close>: the text contains a match of the expression.\<close>

definition MatchString :: "regexp \<Rightarrow> string \<Rightarrow> bool" where
  "MatchString re s = match_from re True s"

text \<open>
  What the specification says of a glob, as a language: the pattern is read from the
  left, two stars together are one token, and a string matches when it is the
  concatenation of one string for each token.
\<close>

datatype glob_token = GLit char | GAny | GStar | GStarStar

fun glob_tokens :: "string \<Rightarrow> glob_token list" where
  "glob_tokens [] = []"
| "glob_tokens [c] =
     (if c = CHR ''*'' then [GStar] else if c = CHR ''?'' then [GAny] else [GLit c])"
| "glob_tokens (c # d # cs) =
     (if c = CHR ''*'' \<and> d = CHR ''*'' then GStarStar # glob_tokens cs
      else if c = CHR ''*'' then GStar # glob_tokens (d # cs)
      else if c = CHR ''?'' then GAny # glob_tokens (d # cs)
      else GLit c # glob_tokens (d # cs))"

fun token_lang :: "glob_token \<Rightarrow> string set" where
  "token_lang (GLit c) = {[c]}"
| "token_lang GAny = {[x] |x. x \<noteq> newline}"
| "token_lang GStar = {u. CHR ''/'' \<notin> set u}"
| "token_lang GStarStar = {u. newline \<notin> set u}"

fun glob_lang :: "glob_token list \<Rightarrow> string set" where
  "glob_lang [] = {[]}"
| "glob_lang (t # ts) = {u @ v |u v. u \<in> token_lang t \<and> v \<in> glob_lang ts}"

section \<open>Errors and the outside world\<close>

text \<open>A Go \<open>error\<close> is its message; \<^verbatim>\<open>fmt.Errorf\<close> with \<^verbatim>\<open>%w\<close> puts a text before it.\<close>

datatype error = Error string

fun Errorf :: "string \<Rightarrow> error \<Rightarrow> error" where
  "Errorf msg (Error e) = Error (msg @ e)"

text \<open>
  An entry of the archive, \<^verbatim>\<open>zip.File\<close>. \<open>FileInfo().IsDir()\<close> holds when the external
  attributes of the entry mark a directory, or when its name ends with a slash.
\<close>

record zip_File =
  Name :: string
  ExternalDir :: bool

definition FileInfo_IsDir :: "zip_File \<Rightarrow> bool" where
  "FileInfo_IsDir f = (ExternalDir f \<or> (Name f \<noteq> [] \<and> last (Name f) = CHR ''/''))"

text \<open>
  One call of the function that \<^verbatim>\<open>filepath.Walk\<close> is given: the path visited, what
  \<^verbatim>\<open>filepath.Rel\<close> answers for it, and whether it is a directory.
\<close>

record walk_entry =
  we_path :: string
  we_rel :: string
  we_isDir :: bool

text \<open>
  A Go map is an association list whose keys are distinct: \<open>m[k] = v\<close> is
  \<^const>\<open>AList.update\<close>, a lookup is \<^const>\<open>map_of\<close> and \<open>len\<close> is \<^const>\<open>length\<close>. Go
  leaves open the order in which \<open>range\<close> visits a map: the order is given from
  outside, as the list of the entries in the order of the visit.
\<close>

text \<open>
  What a comparison takes from outside: opening the archive (its entries, or an
  error), reading an entry of the archive and reading a file (the bytes, or an
  error), walking a directory (the entries visited, and the error that stopped the
  walk, if any), the MD5 digest, and the order in which \<open>range\<close> visits each of the
  two maps.
\<close>

record sys =
  zip_OpenReader :: "string \<Rightarrow> error + zip_File list"
  zip_Open :: "zip_File \<Rightarrow> error + string"
  os_ReadFile :: "string \<Rightarrow> error + string"
  filepath_Walk :: "string \<Rightarrow> walk_entry list \<times> error option"
  md5_Sum :: "string \<Rightarrow> string"
  range_zip :: "(string \<times> zip_File) list \<Rightarrow> (string \<times> zip_File) list"
  range_work :: "(string \<times> string) list \<Rightarrow> (string \<times> string) list"

section \<open>The default exclusion\<close>

definition defaultShouldExclude :: "string \<Rightarrow> bool" where
  "defaultShouldExclude path =
     (let path = ToSlash path;
          pathParts = Split path ''/''
      in if list_ex (\<lambda>part. part \<in> set [''obj'', ''bin'', ''.idea'', ''.vs'', ''My Project'',
                 ''Service References'', ''Properties'']) pathParts
         then True
         else
           (let ext = Ext path
            in if ext \<in> set [''.vbproj'', ''.csproj''] then True
               else if HasSuffix path ''.vbproj.user'' then True
               else False))"

section \<open>The archive reader\<close>

record ZipReader =
  path :: string
  reader :: "zip_File list"

definition NewZipReader :: "sys \<Rightarrow> string \<Rightarrow> error + ZipReader" where
  "NewZipReader sy zp =
     (case zip_OpenReader sy zp of
        Inl err \<Rightarrow> Inl (Errorf ''failed to open zip file: '' err)
      | Inr fs \<Rightarrow> Inr \<lparr>path = zp, reader = fs\<rparr>)"

definition GetRootFolder :: "ZipReader \<Rightarrow> string" where
  "GetRootFolder z =
     (if length (reader z) = 0 then []
      else
        (let firstPath = Name (reader z ! 0);
             parts = Split (TrimPrefix firstPath ''/'') ''/''
         in if length parts > 0 then parts ! 0 else []))"

fun listFilesLoop :: "string \<Rightarrow> zip_File list \<Rightarrow> (string \<times> zip_File) list
    \<Rightarrow> (string \<times> zip_File) list" where
  "listFilesLoop rootFolder [] files = files"
| "listFilesLoop rootFolder (f # fs) files =
     (if FileInfo_IsDir f then listFilesLoop rootFolder fs files
      else
        (let relPath = Name f;
             relPath = (if rootFolder \<noteq> [] \<and> HasPrefix relPath (rootFolder @ ''/'')
                        then TrimPrefix relPath (rootFolder @ ''/'') else relPath);
             relPath = ToSlash relPath
         in if relPath \<noteq> [] then listFilesLoop rootFolder fs (AList.update relPath f files)
            else listFilesLoop rootFolder fs files))"

definition ListFiles :: "ZipReader \<Rightarrow> error + (string \<times> zip_File) list" where
  "ListFiles z = Inr (listFilesLoop (GetRootFolder z) (reader z) [])"

text \<open>
  The first segment of a path, as the specification speaks of it: what stands before
  the first slash.
\<close>

definition first_segment :: "string \<Rightarrow> string" where
  "first_segment s = takeWhile (\<lambda>c. c \<noteq> CHR ''/'') s"

section \<open>The comparison\<close>

record DiffItem =
  RelPath :: string
  Type :: string
  Selected :: bool
  SourcePath :: string

record CompareResult =
  Items :: "DiffItem list"
  TotalFiles :: int
  Added :: int
  Modified :: int
  Deleted :: int

text \<open>
  The comparer. Its progress callback acts on a state \<open>'s\<close> of the caller, and is
  \<open>None\<close> for \<open>nil\<close>. The reader that \<open>Compare\<close> stores in the comparer is closed when
  \<open>Compare\<close> returns; no function reads it afterwards.
\<close>

record ('r, 's) Comparer =
  zipPath :: string
  workDir :: string
  zipReader :: "ZipReader option"
  excludeMatcher :: "'r ExcludeMatcher option"
  OnProgress :: "(int \<Rightarrow> int \<Rightarrow> string \<Rightarrow> 's \<Rightarrow> 's) option"

definition shouldExclude :: "('r \<Rightarrow> string \<Rightarrow> bool) \<Rightarrow> ('r, 's) Comparer \<Rightarrow> string \<Rightarrow> bool \<Rightarrow> bool"
  where
  "shouldExclude rm c p isDir =
     (case excludeMatcher c of
        Some m \<Rightarrow> ShouldExclude rm m p isDir
      | None \<Rightarrow> defaultShouldExclude p)"

definition getZipFileHash :: "sys \<Rightarrow> zip_File \<Rightarrow> error + string" where
  "getZipFileHash sy f =
     (case zip_Open sy f of Inl err \<Rightarrow> Inl err | Inr bytes \<Rightarrow> Inr (md5_Sum sy bytes))"

definition fileHash :: "sys \<Rightarrow> string \<Rightarrow> error + string" where
  "fileHash sy filePath =
     (case os_ReadFile sy filePath of Inl err \<Rightarrow> Inl err | Inr bytes \<Rightarrow> Inr (md5_Sum sy bytes))"

definition emitProgress :: "('r, 's) Comparer \<Rightarrow> int \<Rightarrow> int \<Rightarrow> string \<Rightarrow> 's \<Rightarrow> 's" where
  "emitProgress c current tot message s =
     (case OnProgress c of None \<Rightarrow> s | Some f \<Rightarrow> f current tot message s)"

fun walkLoop :: "walk_entry list \<Rightarrow> (string \<times> string) list \<times> (string \<times> bool) list
    \<Rightarrow> (string \<times> string) list \<times> (string \<times> bool) list" where
  "walkLoop [] (files, dirs) = (files, dirs)"
| "walkLoop (e # es) (files, dirs) =
     (let relPath = we_rel e
      in if relPath = ''.'' then walkLoop es (files, dirs)
         else
           (let relPath = ToSlash relPath
            in if we_isDir e then walkLoop es (files, AList.update relPath True dirs)
               else walkLoop es (AList.update relPath (we_path e) files, dirs)))"

definition getAllFilesAndDirs :: "sys \<Rightarrow> string
    \<Rightarrow> (string \<times> string) list \<times> (string \<times> bool) list \<times> error option" where
  "getAllFilesAndDirs sy root =
     (case filepath_Walk sy root of
        (visited, err) \<Rightarrow> (case walkLoop visited ([], []) of (files, dirs) \<Rightarrow> (files, dirs, err)))"

text \<open>The message of a progress event: the bytes of the two characters, a colon, the path.\<close>

definition checkMessage :: "string \<Rightarrow> string" where
  "checkMessage relPath =
     [CHR 0xE6, CHR 0xA3, CHR 0x80, CHR 0xE6, CHR 0x9F, CHR 0xA5] @ '': '' @ relPath"

fun zipLoop :: "sys \<Rightarrow> ('r \<Rightarrow> string \<Rightarrow> bool) \<Rightarrow> ('r, 's) Comparer \<Rightarrow> (string \<times> string) list
    \<Rightarrow> int \<Rightarrow> (string \<times> zip_File) list \<Rightarrow> CompareResult \<times> int \<times> 's
    \<Rightarrow> CompareResult \<times> int \<times> 's" where
  "zipLoop sy rm c workFiles totalFiles [] st = st"
| "zipLoop sy rm c workFiles totalFiles ((relPath, zipFile) # rest) (result, processed, s) =
     (if shouldExclude rm c relPath False
      then zipLoop sy rm c workFiles totalFiles rest (result, processed, s)
      else
        (let processed = processed + 1;
             s = emitProgress c processed totalFiles (checkMessage relPath) s
         in case map_of workFiles relPath of
              None \<Rightarrow>
                zipLoop sy rm c workFiles totalFiles rest
                  (result\<lparr>Items := Items result @
                            [\<lparr>RelPath = relPath, Type = ''deleted'', Selected = True,
                              SourcePath = []\<rparr>],
                          Deleted := Deleted result + 1\<rparr>, processed, s)
            | Some workFilePath \<Rightarrow>
                (case getZipFileHash sy zipFile of
                   Inl err \<Rightarrow> zipLoop sy rm c workFiles totalFiles rest (result, processed, s)
                 | Inr zipHash \<Rightarrow>
                     (case fileHash sy workFilePath of
                        Inl err \<Rightarrow>
                          zipLoop sy rm c workFiles totalFiles rest (result, processed, s)
                      | Inr workHash \<Rightarrow>
                          if zipHash \<noteq> workHash then
                            zipLoop sy rm c workFiles totalFiles rest
                              (result\<lparr>Items := Items result @
                                        [\<lparr>RelPath = relPath, Type = ''modified'',
                                          Selected = True, SourcePath = workFilePath\<rparr>],
                                      Modified := Modified result + 1\<rparr>, processed, s)
                          else zipLoop sy rm c workFiles totalFiles rest
                                 (result, processed, s)))))"

fun workLoop :: "('r \<Rightarrow> string \<Rightarrow> bool) \<Rightarrow> ('r, 's) Comparer \<Rightarrow> (string \<times> zip_File) list
    \<Rightarrow> int \<Rightarrow> (string \<times> string) list \<Rightarrow> CompareResult \<times> int \<times> 's
    \<Rightarrow> CompareResult \<times> int \<times> 's" where
  "workLoop rm c zipFiles totalFiles [] st = st"
| "workLoop rm c zipFiles totalFiles ((relPath, workFilePath) # rest) (result, processed, s) =
     (if shouldExclude rm c relPath False
      then workLoop rm c zipFiles totalFiles rest (result, processed, s)
      else
        (let processed = processed + 1;
             s = emitProgress c processed totalFiles (checkMessage relPath) s;
             normalizedPath = ToSlash relPath
         in case map_of zipFiles normalizedPath of
              None \<Rightarrow>
                workLoop rm c zipFiles totalFiles rest
                  (result\<lparr>Items := Items result @
                            [\<lparr>RelPath = relPath, Type = ''added'', Selected = True,
                              SourcePath = workFilePath\<rparr>],
                          Added := Added result + 1\<rparr>, processed, s)
            | Some _ \<Rightarrow> workLoop rm c zipFiles totalFiles rest (result, processed, s)))"

definition Compare :: "sys \<Rightarrow> ('r \<Rightarrow> string \<Rightarrow> bool) \<Rightarrow> ('r, 's) Comparer \<Rightarrow> 's
    \<Rightarrow> (error + CompareResult) \<times> 's" where
  "Compare sy rm c s =
     (case NewZipReader sy (zipPath c) of
        Inl err \<Rightarrow> (Inl (Errorf ''failed to open zip file: '' err), s)
      | Inr zr \<Rightarrow>
          (case ListFiles zr of
             Inl err \<Rightarrow> (Inl (Errorf ''failed to list zip files: '' err), s)
           | Inr zipFiles \<Rightarrow>
               (case getAllFilesAndDirs sy (workDir c) of
                  (workFiles, dirs, Some err) \<Rightarrow>
                    (Inl (Errorf ''failed to list work directory files: '' err), s)
                | (workFiles, dirs, None) \<Rightarrow>
                    (let result = \<lparr>Items = [], TotalFiles = 0, Added = 0, Modified = 0,
                                   Deleted = 0\<rparr>;
                         totalFiles = int (length zipFiles) + int (length workFiles);
                         processed = 0
                     in case zipLoop sy rm c workFiles totalFiles (range_zip sy zipFiles)
                               (result, processed, s) of
                          (result, processed, s) \<Rightarrow>
                            (case workLoop rm c zipFiles totalFiles (range_work sy workFiles)
                                    (result, processed, s) of
                               (result, processed, s) \<Rightarrow>
                                 (Inr (result\<lparr>TotalFiles := int (length (Items result))\<rparr>),
                                  s))))))"

section \<open>The export\<close>

text \<open>
  The export writes files. The file system and the caller's state are a world \<open>'w\<close>
  that every operation takes and returns; an operation may change the world also when
  it fails. The operations of Go's packages \<^verbatim>\<open>os\<close>, \<^verbatim>\<open>io\<close> and \<^verbatim>\<open>path/filepath\<close> are the
  fields of a record; \<open>'h\<close> is an open file.
\<close>

record ('w, 'h) os_api =
  os_MkdirAll :: "string \<Rightarrow> 'w \<Rightarrow> error option \<times> 'w"
  os_Open :: "string \<Rightarrow> 'w \<Rightarrow> (error + 'h) \<times> 'w"
  os_Create :: "string \<Rightarrow> 'w \<Rightarrow> (error + 'h) \<times> 'w"
  io_Copy :: "'h \<Rightarrow> 'h \<Rightarrow> 'w \<Rightarrow> error option \<times> 'w"
  file_Close :: "'h \<Rightarrow> 'w \<Rightarrow> 'w"
  filepath_Dir :: "string \<Rightarrow> string"
  filepath_Join :: "string \<Rightarrow> string \<Rightarrow> string"







section \<open>The text differ\<close>

text \<open>
  The diff library \<^verbatim>\<open>diffmatchpatch\<close> is not part of the repository: its two functions
  that \<open>CompareTexts\<close> calls are the fields of the record \<open>DiffMatchPatch\<close>.
\<close>

datatype Operation = DiffDelete | DiffInsert | DiffEqual

record Diff =
  Type :: Operation
  Text :: string

record DiffMatchPatch =
  DiffMain :: "string \<Rightarrow> string \<Rightarrow> bool \<Rightarrow> Diff list"
  DiffCleanupSemantic :: "Diff list \<Rightarrow> Diff list"

record TextDiffer =
  dmp :: DiffMatchPatch

record DiffLine =
  Type :: string
  Content :: string

record TextDiff =
  OldContent :: string
  NewContent :: string
  Lines :: "DiffLine list"

fun lineLoop :: "Diff \<Rightarrow> int \<Rightarrow> int \<Rightarrow> string list \<Rightarrow> TextDiff \<Rightarrow> TextDiff" where
  "lineLoop diff n i [] result = result"
| "lineLoop diff n i (line # rest) result =
     (if i = n - 1 \<and> line = [] then lineLoop diff n (i + 1) rest result
      else
        (let diffType = (case Diff.Type diff of
                           DiffInsert \<Rightarrow> ''insert''
                         | DiffDelete \<Rightarrow> ''delete''
                         | _ \<Rightarrow> ''equal'')
         in lineLoop diff n (i + 1) rest
              (result\<lparr>Lines := Lines result @
                        [\<lparr>DiffLine.Type = diffType, Content = line\<rparr>]\<rparr>)))"

fun diffLoop :: "Diff list \<Rightarrow> TextDiff \<Rightarrow> TextDiff" where
  "diffLoop [] result = result"
| "diffLoop (diff # rest) result =
     (let lines = Split (Text diff) [newline]
      in diffLoop rest (lineLoop diff (int (length lines)) 0 lines result))"

definition CompareTexts :: "TextDiffer \<Rightarrow> string \<Rightarrow> string \<Rightarrow> TextDiff" where
  "CompareTexts d oldText newText =
     (let diffs = DiffMain (dmp d) oldText newText True;
          diffs = DiffCleanupSemantic (dmp d) diffs;
          result = \<lparr>OldContent = oldText, NewContent = newText, Lines = []\<rparr>
      in diffLoop diffs result)"
section \<open>Notions used in the statements\<close>

text \<open>
  The expression that \<open>compile\<close> stores for a rule: the pattern itself for a rule of
  type \<open>regex\<close>, the translation of the glob otherwise; \<open>None\<close> when it does not
  compile. \<open>compileRule\<close> is the compiled rule that \<open>compile\<close> appends.
\<close>

definition compiled_regex :: "(string \<Rightarrow> 'r option) \<Rightarrow> ExcludeRule \<Rightarrow> 'r option" where
  "compiled_regex rc r =
     (if ExcludeRule.Type r = ''regex'' then rc (Pattern r) else rc (globToRegex (Pattern r)))"

definition compileRule :: "(string \<Rightarrow> 'r option) \<Rightarrow> ExcludeRule \<Rightarrow> 'r compiledRule" where
  "compileRule rc r =
     \<lparr>rule = r, regex = compiled_regex rc r,
      pattern = (if ExcludeRule.Type r = ''regex'' then [] else Pattern r)\<rparr>"

text \<open>A compiled rule excludes a path: what one turn of the loop of \<open>ShouldExclude\<close> tests.\<close>

definition rule_hits :: "('r \<Rightarrow> string \<Rightarrow> bool) \<Rightarrow> 'r compiledRule \<Rightarrow> string \<Rightarrow> bool \<Rightarrow> bool" where
  "rule_hits rm cr p isDir =
     (case regex cr of
        None \<Rightarrow> False
      | Some re \<Rightarrow>
          if IsDir (rule cr) then
            (if isDir then (\<exists>part \<in> set (Split p ''/''). rm re part)
             else (\<exists>part \<in> set (butlast (Split p ''/'')). rm re part))
          else rm re (Base p) \<or> rm re p)"

text \<open>Rules and expressions of the examples.\<close>

definition binRule :: ExcludeRule where
  "binRule = \<lparr>Pattern = ''bin'', Type = ''glob'', IsDir = True, Enabled = True,
               Comment = []\<rparr>"

definition binRegexp :: regexp where
  "binRegexp = [RBegin, RChar (RLit CHR ''b''), RChar (RLit CHR ''i''), RChar (RLit CHR ''n''), REnd]"

definition badRule :: ExcludeRule where
  "badRule = \<lparr>Pattern = ''('', Type = ''regex'', IsDir = False, Enabled = True, Comment = []\<rparr>"

definition logRule :: ExcludeRule where
  "logRule = \<lparr>Pattern = ''*.log'', Type = ''glob'', IsDir = False, Enabled = True, Comment = []\<rparr>"

text \<open>
  The path under which an entry is listed: a non-empty root folder, with the slash
  after it, is taken from the front of a name that starts with it. \<open>listed\<close> says that
  a file entry is listed under a path.
\<close>

definition strip_root :: "string \<Rightarrow> string \<Rightarrow> string" where
  "strip_root root name =
     (if root \<noteq> [] \<and> HasPrefix name (root @ ''/'') then drop (length root + 1) name else name)"

definition listed :: "string \<Rightarrow> string \<Rightarrow> zip_File \<Rightarrow> bool" where
  "listed root p f = (\<not> FileInfo_IsDir f \<and> strip_root root (Name f) = p)"

text \<open>Archives of the examples.\<close>

definition absArchive :: ZipReader where
  "absArchive = \<lparr>path = ''abs.zip'',
     reader = [\<lparr>Name = ''/'', ExternalDir = True\<rparr>, \<lparr>Name = ''/x.txt'', ExternalDir = False\<rparr>]\<rparr>"

definition projArchive :: ZipReader where
  "projArchive = \<lparr>path = ''proj.zip'',
     reader = [\<lparr>Name = ''proj/'', ExternalDir = False\<rparr>,
               \<lparr>Name = ''proj/a.txt'', ExternalDir = False\<rparr>,
               \<lparr>Name = ''proj/src'', ExternalDir = True\<rparr>,
               \<lparr>Name = ''other/b.txt'', ExternalDir = False\<rparr>,
               \<lparr>Name = ''proj/src/b.txt'', ExternalDir = False\<rparr>,
               \<lparr>Name = ''a.txt'', ExternalDir = False\<rparr>]\<rparr>"

definition projListing :: "(string \<times> zip_File) list" where
  "projListing =
     [(''a.txt'', \<lparr>Name = ''a.txt'', ExternalDir = False\<rparr>),
      (''other/b.txt'', \<lparr>Name = ''other/b.txt'', ExternalDir = False\<rparr>),
      (''src/b.txt'', \<lparr>Name = ''proj/src/b.txt'', ExternalDir = False\<rparr>)]"

text \<open>
  The two mappings of a comparison: the listing of the archive and the files of the
  working directory, as \<open>Compare\<close> obtains them.
\<close>

definition zipFilesOf :: "sys \<Rightarrow> ('r, 's) Comparer \<Rightarrow> (string \<times> zip_File) list" where
  "zipFilesOf sy c =
     (case NewZipReader sy (zipPath c) of
        Inl err \<Rightarrow> []
      | Inr zr \<Rightarrow> (case ListFiles zr of Inl err \<Rightarrow> [] | Inr zipFiles \<Rightarrow> zipFiles))"

definition workFilesOf :: "sys \<Rightarrow> ('r, 's) Comparer \<Rightarrow> (string \<times> string) list" where
  "workFilesOf sy c = fst (getAllFilesAndDirs sy (workDir c))"

text \<open>
  The entries of the two mappings in the order in which the loops visit them, and the
  law of \<open>range\<close>: it visits every entry of the map once.
\<close>

definition zipRange :: "sys \<Rightarrow> ('r, 's) Comparer \<Rightarrow> (string \<times> zip_File) list" where
  "zipRange sy c = range_zip sy (zipFilesOf sy c)"

definition workRange :: "sys \<Rightarrow> ('r, 's) Comparer \<Rightarrow> (string \<times> string) list" where
  "workRange sy c = range_work sy (workFilesOf sy c)"

definition ranged_once :: "sys \<Rightarrow> ('r, 's) Comparer \<Rightarrow> bool" where
  "ranged_once sy c =
     (mset (zipRange sy c) = mset (zipFilesOf sy c) \<and>
      mset (workRange sy c) = mset (workFilesOf sy c))"

text \<open>The three kinds of items, and the items that one turn of each loop appends.\<close>

definition deletedItem :: "string \<Rightarrow> DiffItem" where
  "deletedItem p = \<lparr>RelPath = p, Type = ''deleted'', Selected = True, SourcePath = []\<rparr>"

definition modifiedItem :: "string \<Rightarrow> string \<Rightarrow> DiffItem" where
  "modifiedItem p wp = \<lparr>RelPath = p, Type = ''modified'', Selected = True, SourcePath = wp\<rparr>"

definition addedItem :: "string \<Rightarrow> string \<Rightarrow> DiffItem" where
  "addedItem p wp = \<lparr>RelPath = p, Type = ''added'', Selected = True, SourcePath = wp\<rparr>"

definition zipItems :: "sys \<Rightarrow> ('r \<Rightarrow> string \<Rightarrow> bool) \<Rightarrow> ('r, 's) Comparer \<Rightarrow> (string \<times> string) list
    \<Rightarrow> string \<times> zip_File \<Rightarrow> DiffItem list" where
  "zipItems sy rm c workFiles e =
     (if shouldExclude rm c (fst e) False then []
      else (case map_of workFiles (fst e) of
              None \<Rightarrow> [deletedItem (fst e)]
            | Some wp \<Rightarrow>
                (case (getZipFileHash sy (snd e), fileHash sy wp) of
                   (Inr zipHash, Inr workHash) \<Rightarrow>
                     if zipHash \<noteq> workHash then [modifiedItem (fst e) wp] else []
                 | _ \<Rightarrow> [])))"

definition workItems :: "('r \<Rightarrow> string \<Rightarrow> bool) \<Rightarrow> ('r, 's) Comparer \<Rightarrow> (string \<times> zip_File) list
    \<Rightarrow> string \<times> string \<Rightarrow> DiffItem list" where
  "workItems rm c zipFiles e =
     (if shouldExclude rm c (fst e) False then []
      else (case map_of zipFiles (fst e) of
              None \<Rightarrow> [addedItem (fst e) (snd e)]
            | Some zf \<Rightarrow> []))"

text \<open>
  The paths that a loop examines are those that are not excluded. \<open>progress_events\<close>
  are the calls that the specification asks for, for a list of paths and from the
  counter \<open>n\<close> on: the counter, the total, and a message that names the path, which is
  the UTF-8 text of the two characters U+68C0 and U+67E5, a colon, a space and the
  path. \<open>fire_events\<close> makes the calls, in order, when there is a callback.
\<close>

definition examined :: "('r \<Rightarrow> string \<Rightarrow> bool) \<Rightarrow> ('r, 's) Comparer \<Rightarrow> string list \<Rightarrow> string list"
  where
  "examined rm c ps = filter (\<lambda>p. \<not> shouldExclude rm c p False) ps"

fun progress_events :: "int \<Rightarrow> int \<Rightarrow> string list \<Rightarrow> (int \<times> int \<times> string) list" where
  "progress_events tot n [] = []"
| "progress_events tot n (p # ps) =
     (n + 1, tot, [CHR 0xE6, CHR 0xA3, CHR 0x80, CHR 0xE6, CHR 0x9F, CHR 0xA5] @ '': '' @ p) #
     progress_events tot (n + 1) ps"

definition fire_events :: "(int \<Rightarrow> int \<Rightarrow> string \<Rightarrow> 's \<Rightarrow> 's) option \<Rightarrow> (int \<times> int \<times> string) list \<Rightarrow> 's \<Rightarrow> 's"
  where
  "fire_events cb evs s =
     (case cb of
        None \<Rightarrow> s
      | Some f \<Rightarrow> foldl (\<lambda>s ev. f (fst ev) (fst (snd ev)) (snd (snd ev)) s) s evs)"

definition progress_total :: "sys \<Rightarrow> ('r, 's) Comparer \<Rightarrow> int" where
  "progress_total sy c = int (length (zipFilesOf sy c)) + int (length (workFilesOf sy c))"

definition examined_paths :: "sys \<Rightarrow> ('r \<Rightarrow> string \<Rightarrow> bool) \<Rightarrow> ('r, 's) Comparer \<Rightarrow> string list" where
  "examined_paths sy rm c =
     examined rm c (map fst (zipRange sy c)) @ examined rm c (map fst (workRange sy c))"

text \<open>
  The system of the examples: an archive \<open>base.zip\<close> with the root folder \<open>root\<close> and
  a working directory \<open>/w\<close>. The digest of this system is the content itself; the
  archive mapping is visited in the order of its list and the other one from the end.
  The callback of the comparer appends the event to a log.
\<close>

definition demoEntries :: "zip_File list" where
  "demoEntries =
     [\<lparr>Name = ''root/'', ExternalDir = False\<rparr>,
      \<lparr>Name = ''root/a.txt'', ExternalDir = False\<rparr>,
      \<lparr>Name = ''root/b.txt'', ExternalDir = False\<rparr>,
      \<lparr>Name = ''root/bin/tool.dll'', ExternalDir = False\<rparr>,
      \<lparr>Name = ''root/m.txt'', ExternalDir = False\<rparr>,
      \<lparr>Name = ''root/locked.txt'', ExternalDir = False\<rparr>]"

definition demoWalk :: "walk_entry list" where
  "demoWalk =
     [\<lparr>we_path = ''/w'', we_rel = ''.'', we_isDir = True\<rparr>,
      \<lparr>we_path = ''/w/a.txt'', we_rel = ''a.txt'', we_isDir = False\<rparr>,
      \<lparr>we_path = ''/w/bin'', we_rel = ''bin'', we_isDir = True\<rparr>,
      \<lparr>we_path = ''/w/bin/tool.dll'', we_rel = ''bin/tool.dll'', we_isDir = False\<rparr>,
      \<lparr>we_path = ''/w/c.txt'', we_rel = ''c.txt'', we_isDir = False\<rparr>,
      \<lparr>we_path = ''/w/locked.txt'', we_rel = ''locked.txt'', we_isDir = False\<rparr>,
      \<lparr>we_path = ''/w/m.txt'', we_rel = ''m.txt'', we_isDir = False\<rparr>]"

definition demoSys :: sys where
  "demoSys =
     \<lparr>zip_OpenReader = (\<lambda>p. if p = ''base.zip'' then Inr demoEntries
                              else Inl (Error ''no such file'')),
      zip_Open = (\<lambda>f. if Name f = ''root/a.txt'' then Inr ''1''
                       else if Name f = ''root/b.txt'' then Inr ''2''
                       else Inr ''old''),
      os_ReadFile = (\<lambda>p. if p = ''/w/a.txt'' then Inr ''1''
                          else if p = ''/w/c.txt'' then Inr ''3''
                          else if p = ''/w/locked.txt'' then Inl (Error ''file is locked'')
                          else Inr ''new''),
      filepath_Walk = (\<lambda>root. if root = ''/w'' then (demoWalk, None)
                               else ([], Some (Error ''no such directory''))),
      md5_Sum = (\<lambda>bytes. bytes),
      range_zip = (\<lambda>m. m),
      range_work = rev\<rparr>"

definition logEvent :: "int \<Rightarrow> int \<Rightarrow> string \<Rightarrow> (int \<times> int \<times> string) list
    \<Rightarrow> (int \<times> int \<times> string) list" where
  "logEvent current tot message log = log @ [(current, tot, message)]"

definition demoComparer :: "(regexp, (int \<times> int \<times> string) list) Comparer" where
  "demoComparer =
     \<lparr>zipPath = ''base.zip'', workDir = ''/w'', zipReader = None, excludeMatcher = None,
      OnProgress = Some logEvent\<rparr>"

definition demoResult :: CompareResult where
  "demoResult =
     \<lparr>Items = [deletedItem ''b.txt'', modifiedItem ''m.txt'' ''/w/m.txt'',
               addedItem ''c.txt'' ''/w/c.txt''],
      TotalFiles = 3, Added = 1, Modified = 1, Deleted = 1\<rparr>"


text \<open>
  What the specification says of an export, as relations between the world before and
  the world after. \<open>calls\<close> is a call of the progress callback, when there is one.
  \<open>copies\<close> is the copy of a file: the directory of the destination is made, with
  the directories above it; the source is opened; the destination is created; the
  bytes are copied; and the two files are closed, the destination first. Each of the
  four operations can fail, and the copy then ends with this error, after the files
  that are open have been closed. \<open>export_steps\<close> takes the items one after the
  other: for each one the callback is called with the position of the item, the
  number of items and a message that names the path, which is the UTF-8 text of the
  two characters U+5BFC and U+51FA, a colon, a space and the path; then the file is
  copied to the join of the output directory and the relative path. The first copy
  that fails ends the export with its error, in the world as it then is.
\<close>

inductive calls :: "(int \<Rightarrow> int \<Rightarrow> string \<Rightarrow> 'w \<Rightarrow> 'w) option \<Rightarrow> int \<Rightarrow> int \<Rightarrow> string \<Rightarrow> 'w \<Rightarrow> 'w
    \<Rightarrow> bool" where
  no_callback: "calls None current tot message w w"
| callback: "calls (Some f) current tot message w (f current tot message w)"

inductive copies :: "('w, 'h) os_api \<Rightarrow> string \<Rightarrow> string \<Rightarrow> 'w \<Rightarrow> error option \<Rightarrow> 'w \<Rightarrow> bool"
  for os :: "('w, 'h) os_api" and src :: string and dest :: string where
  no_directory:
    "os_MkdirAll os (filepath_Dir os dest) w = (Some err, w1)
     \<Longrightarrow> copies os src dest w (Some err) w1"
| no_source:
    "os_MkdirAll os (filepath_Dir os dest) w = (None, w1)
     \<Longrightarrow> os_Open os src w1 = (Inl err, w2)
     \<Longrightarrow> copies os src dest w (Some err) w2"
| no_destination:
    "os_MkdirAll os (filepath_Dir os dest) w = (None, w1)
     \<Longrightarrow> os_Open os src w1 = (Inr srcFile, w2)
     \<Longrightarrow> os_Create os dest w2 = (Inl err, w3)
     \<Longrightarrow> copies os src dest w (Some err) (file_Close os srcFile w3)"
| bytes_copied:
    "os_MkdirAll os (filepath_Dir os dest) w = (None, w1)
     \<Longrightarrow> os_Open os src w1 = (Inr srcFile, w2)
     \<Longrightarrow> os_Create os dest w2 = (Inr destFile, w3)
     \<Longrightarrow> io_Copy os destFile srcFile w3 = (r, w4)
     \<Longrightarrow> copies os src dest w r (file_Close os srcFile (file_Close os destFile w4))"

inductive export_steps :: "('w, 'h) os_api \<Rightarrow> string \<Rightarrow> (int \<Rightarrow> int \<Rightarrow> string \<Rightarrow> 'w \<Rightarrow> 'w) option
    \<Rightarrow> int \<Rightarrow> int \<Rightarrow> DiffItem list \<Rightarrow> 'w \<Rightarrow> error option \<Rightarrow> 'w \<Rightarrow> bool"
  for os :: "('w, 'h) os_api" and outputDir :: string
    and onProgress :: "(int \<Rightarrow> int \<Rightarrow> string \<Rightarrow> 'w \<Rightarrow> 'w) option" and n :: int where
  finished: "export_steps os outputDir onProgress n k [] w None w"
| copied:
    "calls onProgress (k + 1) n
        ([CHR 0xE5, CHR 0xAF, CHR 0xBC, CHR 0xE5, CHR 0x87, CHR 0xBA] @ '': '' @ RelPath item)
        w w1
     \<Longrightarrow> copies os (SourcePath item) (filepath_Join os outputDir (RelPath item)) w1 None w2
     \<Longrightarrow> export_steps os outputDir onProgress n (k + 1) rest w2 r w3
     \<Longrightarrow> export_steps os outputDir onProgress n k (item # rest) w r w3"
| failed:
    "calls onProgress (k + 1) n
        ([CHR 0xE5, CHR 0xAF, CHR 0xBC, CHR 0xE5, CHR 0x87, CHR 0xBA] @ '': '' @ RelPath item)
        w w1
     \<Longrightarrow> copies os (SourcePath item) (filepath_Join os outputDir (RelPath item)) w1
           (Some err) w2
     \<Longrightarrow> export_steps os outputDir onProgress n k (item # rest) w
           (Some (Errorf (''failed to copy file '' @ RelPath item @ '': '') err)) w2"

























text \<open>
  The diff library compares two texts as sequences of runes, and the text of a span
  is the string of its runes; for a text \<open>s\<close> that is \<^verbatim>\<open>string([]rune(s))\<close>. The
  conversion to runes reads one UTF-8 sequence after the other, and a byte that starts
  no valid sequence gives the rune U+FFFD; the conversion back writes the UTF-8
  sequence of every rune. So \<open>throughRunes\<close> keeps the valid sequences of a text and
  puts the three bytes of U+FFFD in the place of every other byte. \<open>leadByte\<close> is the
  table of \<^verbatim>\<open>unicode/utf8\<close> for the first byte of a sequence of several bytes: the length
  of the sequence and the bounds of its second byte. \<open>runeWidth\<close> is the length of the
  valid sequence at the start of a text, \<open>0\<close> when there is none, and \<open>ValidString\<close> is
  \<^verbatim>\<open>utf8.ValidString\<close>. In the two loops the number \<open>k\<close> counts the bytes that remain of
  the sequence being read.
\<close>

definition byte :: "char \<Rightarrow> nat" where
  "byte c = of_char c"

definition leadByte :: "char \<Rightarrow> (nat \<times> nat \<times> nat) option" where
  "leadByte c =
     (let b = byte c
      in if 0xC2 \<le> b \<and> b \<le> 0xDF then Some (2, 0x80, 0xBF)
         else if b = 0xE0 then Some (3, 0xA0, 0xBF)
         else if b = 0xED then Some (3, 0x80, 0x9F)
         else if 0xE1 \<le> b \<and> b \<le> 0xEF then Some (3, 0x80, 0xBF)
         else if b = 0xF0 then Some (4, 0x90, 0xBF)
         else if 0xF1 \<le> b \<and> b \<le> 0xF3 then Some (4, 0x80, 0xBF)
         else if b = 0xF4 then Some (4, 0x80, 0x8F)
         else None)"

definition runeWidth :: "string \<Rightarrow> nat" where
  "runeWidth s =
     (case s of
        [] \<Rightarrow> 0
      | c # cs \<Rightarrow>
          if byte c < 0x80 then 1
          else
            (case leadByte c of
               None \<Rightarrow> 0
             | Some (n, lo, hi) \<Rightarrow>
                 (case cs of
                    [] \<Rightarrow> 0
                  | c1 # rest \<Rightarrow>
                      if lo \<le> byte c1 \<and> byte c1 \<le> hi \<and> n - 2 \<le> length rest \<and>
                         list_all (\<lambda>c. 0x80 \<le> byte c \<and> byte c \<le> 0xBF) (take (n - 2) rest)
                      then n else 0)))"

fun runesLoop :: "nat \<Rightarrow> string \<Rightarrow> string" where
  "runesLoop k [] = []"
| "runesLoop k (c # cs) =
     (if 0 < k then c # runesLoop (k - 1) cs
      else
        (case runeWidth (c # cs) of
           0 \<Rightarrow> [CHR 0xEF, CHR 0xBF, CHR 0xBD] @ runesLoop 0 cs
         | Suc n \<Rightarrow> c # runesLoop n cs))"

definition throughRunes :: "string \<Rightarrow> string" where
  "throughRunes s = runesLoop 0 s"

fun validLoop :: "nat \<Rightarrow> string \<Rightarrow> bool" where
  "validLoop k [] = (k = 0)"
| "validLoop k (c # cs) =
     (if 0 < k then validLoop (k - 1) cs
      else (case runeWidth (c # cs) of 0 \<Rightarrow> False | Suc n \<Rightarrow> validLoop n cs))"

definition ValidString :: "string \<Rightarrow> bool" where
  "ValidString s = validLoop 0 s"

text \<open>
  The lines that the inner loop of \<open>CompareTexts\<close> keeps, and the type it writes.
  \<open>equalTexts\<close> is what the diff library does for two equal texts, the first branch
  of its \<^verbatim>\<open>diffMainRunes\<close>: no span for the empty text, one span of type \<open>DiffEqual\<close>
  with the string of the runes of the text otherwise, which the cleanup leaves as it
  is.
\<close>

definition keptLines :: "string list \<Rightarrow> string list" where
  "keptLines ls = (if ls \<noteq> [] \<and> last ls = [] then butlast ls else ls)"

definition lineType :: "Operation \<Rightarrow> string" where
  "lineType t = (case t of DiffInsert \<Rightarrow> ''insert'' | DiffDelete \<Rightarrow> ''delete'' | DiffEqual \<Rightarrow> ''equal'')"

definition equalTexts :: "DiffMatchPatch \<Rightarrow> string \<Rightarrow> bool" where
  "equalTexts lib a =
     (DiffCleanupSemantic lib (DiffMain lib a a True) =
        (if a = [] then [] else [\<lparr>Diff.Type = DiffEqual, Text = throughRunes a\<rparr>]))"

definition withoutFinalNewline :: "string \<Rightarrow> string" where
  "withoutFinalNewline a = (if a \<noteq> [] \<and> last a = newline then butlast a else a)"

text \<open>
  A diff library for the examples. For two texts with the same runes it answers as
  the library does; two other texts it gives as a deletion and an insertion.
\<close>

definition demoDmp :: DiffMatchPatch where
  "demoDmp =
     \<lparr>DiffMain = (\<lambda>a b checklines.
         if throughRunes a = throughRunes b
         then (if a = [] then [] else [\<lparr>Diff.Type = DiffEqual, Text = throughRunes a\<rparr>])
         else [\<lparr>Diff.Type = DiffDelete, Text = throughRunes a\<rparr>,
               \<lparr>Diff.Type = DiffInsert, Text = throughRunes b\<rparr>]),
      DiffCleanupSemantic = (\<lambda>diffs. diffs)\<rparr>"

definition demoDiffer :: TextDiffer where
  "demoDiffer = \<lparr>dmp = demoDmp\<rparr>"

text \<open>
  Two texts of the examples: the lines \<open>a\<close>, the empty line and \<open>e\<close> with an acute
  accent, in UTF-8; and a line of one byte that is no UTF-8.
\<close>

definition demoText :: string where
  "demoText = ''a'' @ [newline, newline] @ [CHR 0xC3, CHR 0xA9] @ [newline]"

definition latin1Text :: string where
  "latin1Text = [CHR 0xFF, newline]"

text \<open>
  The text that \<open>globToRegex\<close> writes for a glob, token by token: \<open>esc\<close> is what
  \<open>QuoteMeta\<close> writes for one character; \<open>stage1\<close> and \<open>stage2\<close> are the texts after
  the first and the second replacement; \<open>glob_text\<close> is the text of a token, and
  \<open>glob_item\<close> the item of the regular expression that it is compiled to.
\<close>

definition esc :: "char \<Rightarrow> string" where
  "esc c = (if special c then [bslash, c] else [c])"

fun stage1 :: "string \<Rightarrow> string" where
  "stage1 [] = []"
| "stage1 [c] = esc c"
| "stage1 (c # d # cs) =
     (if c = CHR ''*'' \<and> d = CHR ''*'' then ''.*'' @ stage1 cs else esc c @ stage1 (d # cs))"

fun stage2 :: "string \<Rightarrow> string" where
  "stage2 [] = []"
| "stage2 [c] = (if c = CHR ''*'' then ''[^/]*'' else esc c)"
| "stage2 (c # d # cs) =
     (if c = CHR ''*'' \<and> d = CHR ''*'' then ''.*'' @ stage2 cs
      else if c = CHR ''*'' then ''[^/]*'' @ stage2 (d # cs)
      else esc c @ stage2 (d # cs))"

fun glob_text :: "glob_token \<Rightarrow> string" where
  "glob_text (GLit c) = esc c"
| "glob_text GAny = ''.''"
| "glob_text GStar = ''[^/]*''"
| "glob_text GStarStar = ''.*''"

fun glob_item :: "glob_token \<Rightarrow> rx_item" where
  "glob_item (GLit c) = RChar (RLit c)"
| "glob_item GAny = RChar RAnyNotNL"
| "glob_item GStar = RStar (RNot (CHR ''/''))"
| "glob_item GStarStar = RStar RAnyNotNL"

definition glob_regexp :: "string \<Rightarrow> regexp" where
  "glob_regexp p = RBegin # map glob_item (glob_tokens p) @ [REnd]"

text \<open>A file rule of type \<open>glob\<close>, enabled.\<close>

definition globRule :: "string \<Rightarrow> ExcludeRule" where
  "globRule p = \<lparr>Pattern = p, Type = ''glob'', IsDir = False, Enabled = True, Comment = []\<rparr>"
section \<open>Splitting a path\<close>

lemma Index_single:
  "Index (x # xs) [c] = (if x = c then Some 0 else map_option Suc (Index xs [c]))"
  by (simp add: HasPrefix_def)

lemma Split_single_Nil: "Split [] [c] = [[]]"
  by (simp add: Split.simps)

lemma Split_single_Cons:
  "Split (x # xs) [c] =
     (if x = c then [] # Split xs [c]
      else (x # hd (Split xs [c])) # tl (Split xs [c]))"
proof (cases "x = c")
  case True
  then show ?thesis
    by (subst Split.simps) (simp add: HasPrefix_def)
next
  case False
  show ?thesis
  proof (cases "Index xs [c]")
    case None
    with False show ?thesis
      by (subst Split.simps, subst (2 3) Split.simps) (simp add: HasPrefix_def)
  next
    case (Some m)
    with False show ?thesis
      by (subst Split.simps, subst (2 3) Split.simps) (simp add: HasPrefix_def)
  qed
qed

lemma Split_single_nonempty: "Split s [c] \<noteq> []"
  by (cases s) (simp_all add: Split_single_Nil Split_single_Cons)

lemma Split_no_sep: "c \<notin> set s \<Longrightarrow> Split s [c] = [s]"
  by (induction s) (auto simp: Split_single_Nil Split_single_Cons)


section \<open>The exclusion matcher\<close>

lemma compile_eq: "compile rc rs crs = crs @ map (compileRule rc) (filter Enabled rs)"
proof (induction rs arbitrary: crs)
  case Nil
  then show ?case by simp
next
  case (Cons r rs)
  show ?case
  proof (cases "Enabled r")
    case False
    then show ?thesis using Cons.IH by simp
  next
    case True
    have step: "compile rc (r # rs) crs = compile rc rs (crs @ [compileRule rc r])"
      using True
      by (cases "rc (Pattern r)"; cases "rc (globToRegex (Pattern r))")
         (simp_all add: compileRule_def compiled_regex_def)
    show ?thesis using True by (simp only: step Cons.IH) simp
  qed
qed


lemma compiledRules_New:
  "compiledRules (NewExcludeMatcher rc rs) = map (compileRule rc) (filter Enabled rs)"
  by (simp add: NewExcludeMatcher_def compile_eq)

lemma pathContainsDir_iff:
  "regex cr = Some re \<Longrightarrow>
     pathContainsDir rm p cr \<longleftrightarrow> (\<exists>part \<in> set (butlast (Split p ''/'')). rm re part)"
  by (simp add: pathContainsDir_def Let_def list_ex_iff butlast_conv_take)

lemma excludeLoop_Cons:
  "excludeLoop rm (cr # crs) p isDir \<longleftrightarrow> rule_hits rm cr p isDir \<or> excludeLoop rm crs p isDir"
proof (cases "regex cr")
  case None
  then show ?thesis by (simp add: rule_hits_def)
next
  case (Some re)
  then show ?thesis
    by (cases "IsDir (rule cr)"; cases isDir)
       (auto simp: rule_hits_def pathContainsDir_iff list_ex_iff)
qed

lemma excludeLoop_iff:
  "excludeLoop rm crs p isDir \<longleftrightarrow> (\<exists>cr \<in> set crs. rule_hits rm cr p isDir)"
proof (induction crs)
  case Nil
  then show ?case by simp
next
  case (Cons cr crs)
  then show ?case by (simp only: excludeLoop_Cons) simp
qed

lemma ToSlash_id: "ToSlash p = p"
  by (simp add: ToSlash_def Separator_def)

lemma ShouldExclude_iff:
  "ShouldExclude rm (NewExcludeMatcher rc rs) p isDir \<longleftrightarrow>
     (\<exists>r \<in> set rs. Enabled r \<and> rule_hits rm (compileRule rc r) p isDir)"
  by (auto simp: ShouldExclude_def excludeLoop_iff compiledRules_New ToSlash_id)


lemma compiled_bin:
  "compiled_regex regexp_Compile (binRule\<lparr>Comment := cm\<rparr>) =
     Some [RBegin, RChar (RLit CHR ''b''), RChar (RLit CHR ''i''), RChar (RLit CHR ''n''), REnd]"
proof -
  have "regexp_Compile (globToRegex ''bin'') =
     Some [RBegin, RChar (RLit CHR ''b''), RChar (RLit CHR ''i''), RChar (RLit CHR ''n''), REnd]"
    by code_simp
  then show ?thesis by (simp add: compiled_regex_def binRule_def)
qed

lemma match_from_Begin_False: "\<not> match_from (RBegin # re) False t"
  by (induction t) simp_all

lemma MatchString_anchored: "MatchString (RBegin # re) s = match_here re True s"
  by (cases s) (simp_all add: MatchString_def match_from_Begin_False)

lemma match_here_literal:
  "match_here (map (\<lambda>c. RChar (RLit c)) w @ [REnd]) b s \<longleftrightarrow> s = w"
proof (induction w arbitrary: s b)
  case Nil
  then show ?case by simp
next
  case (Cons c w)
  then show ?case by (cases s) auto
qed

lemma match_bin:
  "MatchString [RBegin, RChar (RLit CHR ''b''), RChar (RLit CHR ''i''), RChar (RLit CHR ''n''), REnd] s
     \<longleftrightarrow> s = ''bin''"
  using match_here_literal [of "''bin''" True s] by (simp add: MatchString_anchored)

text \<open>
  C3. A directory rule that is enabled, and whose pattern compiled, excludes a file
  path when one of the segments before the last matches the compiled pattern, and a
  directory path when any segment matches. So the glob rule \<open>bin\<close> for directories,
  in any rule set, excludes every file below a segment \<open>bin\<close> and every directory
  path with a segment \<open>bin\<close>.
\<close>

theorem directory_rule_propagation:
  "(r \<in> set rs \<and> Enabled r \<and> IsDir r \<and> compiled_regex rc r = Some re \<and>
      (\<exists>part \<in> set (butlast (Split p ''/'')). rm re part)
      \<longrightarrow> ShouldExclude rm (NewExcludeMatcher rc rs) p False) \<and>
   (r \<in> set rs \<and> Enabled r \<and> IsDir r \<and> compiled_regex rc r = Some re \<and>
      (\<exists>part \<in> set (Split p ''/''). rm re part)
      \<longrightarrow> ShouldExclude rm (NewExcludeMatcher rc rs) p True) \<and>
   (binRule\<lparr>Comment := cm\<rparr> \<in> set rs' \<and> ''bin'' \<in> set (butlast (Split p' ''/''))
      \<longrightarrow> ShouldExclude MatchString (NewExcludeMatcher regexp_Compile rs') p' False) \<and>
   (binRule\<lparr>Comment := cm\<rparr> \<in> set rs' \<and> ''bin'' \<in> set (Split p' ''/'')
      \<longrightarrow> ShouldExclude MatchString (NewExcludeMatcher regexp_Compile rs') p' True)"
proof -
  have on_file: "ShouldExclude rm (NewExcludeMatcher rc rs) p False"
    if "r \<in> set rs" "Enabled r" "IsDir r" "compiled_regex rc r = Some re"
       "\<exists>part \<in> set (butlast (Split p ''/'')). rm re part"
    for rc :: "string \<Rightarrow> 'x option" and rm r rs re p
    unfolding ShouldExclude_iff using that
    by (intro bexI [of _ r]) (simp_all add: rule_hits_def compileRule_def)
  have on_dir: "ShouldExclude rm (NewExcludeMatcher rc rs) p True"
    if "r \<in> set rs" "Enabled r" "IsDir r" "compiled_regex rc r = Some re"
       "\<exists>part \<in> set (Split p ''/''). rm re part"
    for rc :: "string \<Rightarrow> 'x option" and rm r rs re p
    unfolding ShouldExclude_iff using that
    by (intro bexI [of _ r]) (simp_all add: rule_hits_def compileRule_def)
  have props: "Enabled (binRule\<lparr>Comment := cm\<rparr>)" "IsDir (binRule\<lparr>Comment := cm\<rparr>)"
    by (simp_all add: binRule_def)
  show ?thesis
    using on_file [of r rs rc re p rm] on_dir [of r rs rc re p rm]
      on_file [OF _ props compiled_bin, of rs' p' MatchString]
      on_dir [OF _ props compiled_bin, of rs' p' MatchString]
    by (auto simp: match_bin)
qed


theorem directory_rule_propagation_witness:
  "binRule \<in> set [binRule] \<and> Enabled binRule \<and> IsDir binRule \<and>
   compiled_regex regexp_Compile binRule = Some binRegexp \<and>
   (\<exists>part \<in> set (butlast (Split ''src/bin/x.txt'' ''/'')). MatchString binRegexp part) \<and>
   (\<exists>part \<in> set (Split ''src/bin'' ''/''). MatchString binRegexp part) \<and>
   ''bin'' \<in> set (butlast (Split ''src/bin/Debug/app.exe'' ''/'')) \<and>
   ''bin'' \<in> set (Split ''bin'' ''/'') \<and>
   ShouldExclude MatchString (NewExcludeMatcher regexp_Compile [binRule]) ''src/bin/x.txt'' False \<and>
   ShouldExclude MatchString (NewExcludeMatcher regexp_Compile [binRule]) ''src/bin'' True \<and>
   ShouldExclude MatchString (NewExcludeMatcher regexp_Compile [binRule])
     ''src/bin/Debug/app.exe'' False \<and>
   ShouldExclude MatchString (NewExcludeMatcher regexp_Compile [binRule]) ''bin'' True"
proof -
  have h1: "binRule \<in> set [binRule] \<and> Enabled binRule \<and> IsDir binRule"
    by (simp add: binRule_def)
  have h2: "compiled_regex regexp_Compile binRule = Some binRegexp"
    by code_simp
  have h3: "\<exists>part \<in> set (butlast (Split ''src/bin/x.txt'' ''/'')). MatchString binRegexp part"
    by code_simp
  have h4: "\<exists>part \<in> set (Split ''src/bin'' ''/''). MatchString binRegexp part"
    by code_simp
  have h5: "''bin'' \<in> set (butlast (Split ''src/bin/Debug/app.exe'' ''/''))"
    by code_simp
  have h6: "''bin'' \<in> set (Split ''bin'' ''/'')"
    by code_simp
  have same: "binRule\<lparr>Comment := []\<rparr> = binRule"
    by (simp add: binRule_def)
  show ?thesis
    using h1 h2 h3 h4 h5 h6
      directory_rule_propagation [of binRule "[binRule]" regexp_Compile binRegexp
        "''src/bin/x.txt''" MatchString "[]" "[binRule]" "''src/bin/Debug/app.exe''"]
      directory_rule_propagation [of binRule "[binRule]" regexp_Compile binRegexp
        "''src/bin''" MatchString "[]" "[binRule]" "''bin''"]
    by (simp add: same)
qed

lemma Split_single_append:
  "Split (a @ c # b) [c] = Split a [c] @ Split b [c]"
proof (induction a)
  case Nil
  then show ?case by (simp add: Split_single_Nil Split_single_Cons)
next
  case (Cons x a)
  then show ?case
    using Split_single_nonempty [of a c]
    by (cases "Split a [c]") (simp_all add: Split_single_Cons)
qed

lemma butlast_Split_file:
  "CHR ''/'' \<notin> set name \<Longrightarrow> butlast (Split (dir @ CHR ''/'' # name) ''/'') = Split dir ''/''"
  by (simp add: Split_single_append Split_no_sep butlast_append)

lemma rule_hits_compiled:
  "rule_hits rm (compileRule rc r) q isDir \<Longrightarrow> compiled_regex rc r \<noteq> None"
  by (cases "compiled_regex rc r") (simp_all add: rule_hits_def compileRule_def)

lemma rule_hits_dir_file:
  "IsDir r \<Longrightarrow>
     rule_hits rm (compileRule rc r) q False \<longleftrightarrow>
       (\<exists>re. compiled_regex rc r = Some re \<and>
          (\<exists>part \<in> set (butlast (Split q ''/'')). rm re part))"
  by (cases "compiled_regex rc r") (simp_all add: rule_hits_def compileRule_def)

text \<open>
  C10. With directory rules only, a path evaluated as a file is excluded exactly when
  a segment before the last one matches the compiled pattern of an enabled rule. The
  last segment is not tested: a path without a slash is never excluded, and the
  answer for a file does not depend on its name.
\<close>

theorem file_name_not_tested:
  "(\<forall>r \<in> set rs. IsDir r) \<longrightarrow>
     (ShouldExclude rm (NewExcludeMatcher rc rs) p False \<longleftrightarrow>
        (\<exists>r \<in> set rs. \<exists>re. Enabled r \<and> compiled_regex rc r = Some re \<and>
           (\<exists>part \<in> set (butlast (Split p ''/'')). rm re part))) \<and>
     (CHR ''/'' \<notin> set p \<longrightarrow> \<not> ShouldExclude rm (NewExcludeMatcher rc rs) p False) \<and>
     (CHR ''/'' \<notin> set name \<and> CHR ''/'' \<notin> set name' \<longrightarrow>
        ShouldExclude rm (NewExcludeMatcher rc rs) (dir @ ''/'' @ name) False =
        ShouldExclude rm (NewExcludeMatcher rc rs) (dir @ ''/'' @ name') False)"
proof
  assume dirs: "\<forall>r \<in> set rs. IsDir r"
  have iff: "ShouldExclude rm (NewExcludeMatcher rc rs) q False \<longleftrightarrow>
        (\<exists>r \<in> set rs. \<exists>re. Enabled r \<and> compiled_regex rc r = Some re \<and>
           (\<exists>part \<in> set (butlast (Split q ''/'')). rm re part))" for q
    unfolding ShouldExclude_iff using dirs
    by (auto simp: rule_hits_dir_file)
  have top: "\<not> ShouldExclude rm (NewExcludeMatcher rc rs) p False" if "CHR ''/'' \<notin> set p"
    unfolding iff using that by (simp add: Split_no_sep)
  have indep: "ShouldExclude rm (NewExcludeMatcher rc rs) (dir @ ''/'' @ name) False =
        ShouldExclude rm (NewExcludeMatcher rc rs) (dir @ ''/'' @ name') False"
    if "CHR ''/'' \<notin> set name" "CHR ''/'' \<notin> set name'"
    unfolding iff using that by (simp add: butlast_Split_file)
  from iff [of p] top indep show "(ShouldExclude rm (NewExcludeMatcher rc rs) p False \<longleftrightarrow>
        (\<exists>r \<in> set rs. \<exists>re. Enabled r \<and> compiled_regex rc r = Some re \<and>
           (\<exists>part \<in> set (butlast (Split p ''/'')). rm re part))) \<and>
     (CHR ''/'' \<notin> set p \<longrightarrow> \<not> ShouldExclude rm (NewExcludeMatcher rc rs) p False) \<and>
     (CHR ''/'' \<notin> set name \<and> CHR ''/'' \<notin> set name' \<longrightarrow>
        ShouldExclude rm (NewExcludeMatcher rc rs) (dir @ ''/'' @ name) False =
        ShouldExclude rm (NewExcludeMatcher rc rs) (dir @ ''/'' @ name') False)"
    by blast
qed

theorem file_name_not_tested_witness:
  "IsDir binRule \<and> CHR ''/'' \<notin> set ''bin'' \<and> CHR ''/'' \<notin> set ''main.go'' \<and>
   MatchString binRegexp ''bin'' \<and>
   \<not> ShouldExclude MatchString (NewExcludeMatcher regexp_Compile [binRule]) ''bin'' False \<and>
   ShouldExclude MatchString (NewExcludeMatcher regexp_Compile [binRule]) ''bin'' True \<and>
   ShouldExclude MatchString (NewExcludeMatcher regexp_Compile [binRule]) ''src/bin'' False =
   ShouldExclude MatchString (NewExcludeMatcher regexp_Compile [binRule]) ''src/main.go'' False \<and>
   \<not> ShouldExclude MatchString (NewExcludeMatcher regexp_Compile [binRule]) ''src/bin'' False"
proof -
  have h0: "IsDir binRule"
    by (simp add: binRule_def)
  then have h1: "\<forall>r \<in> set [binRule]. IsDir r"
    by simp
  have h2: "CHR ''/'' \<notin> set ''bin'' \<and> CHR ''/'' \<notin> set ''main.go''"
    by simp
  have h3: "MatchString binRegexp ''bin''"
    by code_simp
  have h4: "ShouldExclude MatchString (NewExcludeMatcher regexp_Compile [binRule]) ''bin'' True"
    by code_simp
  have h5: "\<not> ShouldExclude MatchString (NewExcludeMatcher regexp_Compile [binRule]) ''src/main.go'' False"
    by code_simp
  note inst = file_name_not_tested [of "[binRule]" MatchString regexp_Compile "''bin''" "''bin''"
        "''main.go''" "''src''"]
  have e1: "''src'' @ ''/'' @ ''bin'' = ''src/bin''" and e2: "''src'' @ ''/'' @ ''main.go'' = ''src/main.go''"
    by simp_all
  from inst h1 h2 have
    "\<not> ShouldExclude MatchString (NewExcludeMatcher regexp_Compile [binRule]) ''bin'' False \<and>
     ShouldExclude MatchString (NewExcludeMatcher regexp_Compile [binRule]) (''src'' @ ''/'' @ ''bin'') False =
     ShouldExclude MatchString (NewExcludeMatcher regexp_Compile [binRule]) (''src'' @ ''/'' @ ''main.go'') False"
    by blast
  with h0 h2 h3 h4 h5 show ?thesis
    unfolding e1 e2 by blast
qed

text \<open>
  C8. The matcher is built for every rule set: \<open>NewExcludeMatcher\<close> has no error
  result, and an enabled rule whose pattern does not compile is kept as a compiled
  rule without an expression. Such a rule can be taken out of the rule set without
  changing the answer of \<open>ShouldExclude\<close> for any path; the answer is that of the
  rules that compiled.
\<close>

theorem failed_pattern_inert:
  "(r \<in> set rs \<and> Enabled r \<and> compiled_regex rc r = None \<longrightarrow>
      compileRule rc r \<in> set (compiledRules (NewExcludeMatcher rc rs)) \<and>
      regex (compileRule rc r) = None) \<and>
   (compiled_regex rc r = None \<longrightarrow>
      ShouldExclude rm (NewExcludeMatcher rc (rs1 @ r # rs2)) p isDir =
      ShouldExclude rm (NewExcludeMatcher rc (rs1 @ rs2)) p isDir) \<and>
   ShouldExclude rm (NewExcludeMatcher rc rs) p isDir =
   ShouldExclude rm (NewExcludeMatcher rc (filter (\<lambda>r. compiled_regex rc r \<noteq> None) rs)) p isDir"
proof -
  have inert: "\<not> rule_hits rm (compileRule rc r) p isDir" if "compiled_regex rc r = None" for r
    using that by (simp add: rule_hits_def compileRule_def)
  have one: "ShouldExclude rm (NewExcludeMatcher rc (rs1 @ r # rs2)) p isDir =
      ShouldExclude rm (NewExcludeMatcher rc (rs1 @ rs2)) p isDir"
    if "compiled_regex rc r = None"
    unfolding ShouldExclude_iff using inert [OF that] by auto
  have all: "ShouldExclude rm (NewExcludeMatcher rc rs) p isDir =
   ShouldExclude rm (NewExcludeMatcher rc (filter (\<lambda>r. compiled_regex rc r \<noteq> None) rs)) p isDir"
    unfolding ShouldExclude_iff using rule_hits_compiled [of rm rc _ p isDir] by auto
  have kept: "compileRule rc r \<in> set (compiledRules (NewExcludeMatcher rc rs)) \<and>
      regex (compileRule rc r) = None"
    if "r \<in> set rs" "Enabled r" "compiled_regex rc r = None"
  proof
    from that(1,2) show "compileRule rc r \<in> set (compiledRules (NewExcludeMatcher rc rs))"
      by (simp add: compiledRules_New)
    from that(3) show "regex (compileRule rc r) = None"
      by (simp add: compileRule_def)
  qed
  from kept one all show ?thesis by blast
qed

theorem failed_pattern_inert_witness:
  "badRule \<in> set [badRule, logRule] \<and> Enabled badRule \<and>
   compiled_regex regexp_Compile badRule = None \<and>
   compileRule regexp_Compile badRule \<in>
     set (compiledRules (NewExcludeMatcher regexp_Compile [badRule, logRule])) \<and>
   ShouldExclude MatchString (NewExcludeMatcher regexp_Compile ([] @ badRule # [logRule]))
     ''app.log'' False =
   ShouldExclude MatchString (NewExcludeMatcher regexp_Compile ([] @ [logRule])) ''app.log'' False \<and>
   ShouldExclude MatchString (NewExcludeMatcher regexp_Compile ([] @ [logRule])) ''app.log'' False \<and>
   filter (\<lambda>r. compiled_regex regexp_Compile r \<noteq> None) [badRule, logRule] = [logRule]"
proof -
  have h0: "badRule \<in> set [badRule, logRule] \<and> Enabled badRule"
    by (simp add: badRule_def)
  have h1: "compiled_regex regexp_Compile badRule = None"
    by code_simp
  have h2: "ShouldExclude MatchString (NewExcludeMatcher regexp_Compile ([] @ [logRule]))
      ''app.log'' False"
    by code_simp
  have h3: "compiled_regex regexp_Compile logRule \<noteq> None"
    by code_simp
  show ?thesis
    using h0 h1 h2 h3
      failed_pattern_inert [of badRule "[badRule, logRule]" regexp_Compile MatchString "[]"
        "[logRule]" "''app.log''" False]
    by simp
qed


section \<open>The listing of the archive\<close>

lemma hd_Split_single: "hd (Split s [c]) = takeWhile (\<lambda>x. x \<noteq> c) s"
  by (induction s) (simp_all add: Split_single_Nil Split_single_Cons)

lemma GetRootFolder_eq:
  "reader z \<noteq> [] \<Longrightarrow> GetRootFolder z = first_segment (TrimPrefix (Name (hd (reader z))) ''/'')"
  using Split_single_nonempty [of "TrimPrefix (Name (hd (reader z))) ''/''" "CHR ''/''"]
  by (simp add: GetRootFolder_def first_segment_def Let_def hd_conv_nth hd_Split_single [symmetric])

lemma strip_root_eq:
  "(if root \<noteq> [] \<and> HasPrefix n (root @ ''/'') then TrimPrefix n (root @ ''/'') else n) =
     strip_root root n"
  by (simp add: strip_root_def TrimPrefix_def)

lemma listFilesLoop_step:
  "listFilesLoop root (f # fs) files =
     listFilesLoop root fs
       (if \<not> FileInfo_IsDir f \<and> strip_root root (Name f) \<noteq> []
        then AList.update (strip_root root (Name f)) f files else files)"
  by (simp only: listFilesLoop.simps Let_def ToSlash_id strip_root_eq) simp

lemma distinct_listFilesLoop:
  "distinct (map fst files) \<Longrightarrow> distinct (map fst (listFilesLoop root fs files))"
proof (induction fs arbitrary: files)
  case Nil
  then show ?case by simp
next
  case (Cons f fs)
  then show ?case
    by (simp only: listFilesLoop_step) (simp add: distinct_update)
qed

lemma find_snoc:
  "List.find P (xs @ [x]) =
     (case List.find P xs of Some y \<Rightarrow> Some y | None \<Rightarrow> if P x then Some x else None)"
  by (induction xs) simp_all

lemma map_of_listFilesLoop:
  "map_of (listFilesLoop root fs files) p =
     (if p = [] then map_of files p
      else (case List.find (listed root p) (rev fs) of
              Some f \<Rightarrow> Some f
            | None \<Rightarrow> map_of files p))"
proof (induction fs arbitrary: files)
  case Nil
  then show ?case by simp
next
  case (Cons f fs)
  have L: "listed root p f \<longleftrightarrow> \<not> FileInfo_IsDir f \<and> strip_root root (Name f) = p"
    by (simp add: listed_def)
  show ?case
    by (simp only: listFilesLoop_step Cons.IH)
       (auto simp: update_conv' L find_snoc split: option.splits)
qed

lemma find_listed_not_dir: "List.find (listed root p) fs = Some f \<Longrightarrow> \<not> FileInfo_IsDir f"
  by (induction fs) (auto simp: listed_def split: if_splits)

text \<open>
  C4, as amended. For an archive with at least one entry, the root folder is the first
  segment of the name of the first entry, after one leading slash is removed. The
  listing has, for a path that is not empty, the last file entry whose name gives this
  path: the name without the root folder and its slash when the root folder is not
  empty and the name starts with them, the name unchanged otherwise. A directory
  entry is never listed, and the keys of the listing are distinct.
\<close>

theorem root_folder_stripping:
  "reader z \<noteq> [] \<longrightarrow>
     GetRootFolder z = first_segment (TrimPrefix (Name (hd (reader z))) ''/'') \<and>
     (\<exists>files. ListFiles z = Inr files \<and> distinct (map fst files) \<and>
        (\<forall>p. map_of files p =
           (if p = [] then None else List.find (listed (GetRootFolder z) p) (rev (reader z)))) \<and>
        (\<forall>p f. map_of files p = Some f \<longrightarrow> \<not> FileInfo_IsDir f))"
proof
  assume ne: "reader z \<noteq> []"
  let ?files = "listFilesLoop (GetRootFolder z) (reader z) []"
  have m: "map_of ?files p =
      (if p = [] then None else List.find (listed (GetRootFolder z) p) (rev (reader z)))" for p
    by (simp add: map_of_listFilesLoop split: option.splits)
  have d: "distinct (map fst ?files)"
    by (rule distinct_listFilesLoop) simp
  have nd: "\<not> FileInfo_IsDir f" if "map_of ?files p = Some f" for p f
    using that unfolding m by (auto split: if_splits dest: find_listed_not_dir)
  from GetRootFolder_eq [OF ne] m d nd
  show "GetRootFolder z = first_segment (TrimPrefix (Name (hd (reader z))) ''/'') \<and>
     (\<exists>files. ListFiles z = Inr files \<and> distinct (map fst files) \<and>
        (\<forall>p. map_of files p =
           (if p = [] then None else List.find (listed (GetRootFolder z) p) (rev (reader z)))) \<and>
        (\<forall>p f. map_of files p = Some f \<longrightarrow> \<not> FileInfo_IsDir f))"
    unfolding ListFiles_def by blast
qed

text \<open>
  The claim as stated fails when the first segment is empty: the root folder of this
  archive is empty, the second entry starts with the root folder and a slash, and it
  is listed under its whole name.
\<close>

theorem root_folder_stripping_counterexample:
  "reader absArchive \<noteq> [] \<and>
   GetRootFolder absArchive = [] \<and>
   HasPrefix ''/x.txt'' (GetRootFolder absArchive @ ''/'') \<and>
   ListFiles absArchive = Inr [(''/x.txt'', \<lparr>Name = ''/x.txt'', ExternalDir = False\<rparr>)]"
  by code_simp

theorem root_folder_stripping_witness:
  "reader projArchive \<noteq> [] \<and>
   first_segment (TrimPrefix (Name (hd (reader projArchive))) ''/'') = ''proj'' \<and>
   GetRootFolder projArchive = ''proj'' \<and>
   ListFiles projArchive = Inr projListing \<and>
   distinct (map fst projListing) \<and>
   map_of projListing ''src/b.txt'' =
     List.find (listed (GetRootFolder projArchive) ''src/b.txt'') (rev (reader projArchive)) \<and>
   map_of projListing ''src'' = None \<and>
   map_of projListing ''proj/a.txt'' = None"
proof -
  have h: "reader projArchive \<noteq> []"
    by (simp add: projArchive_def)
  have s: "first_segment (TrimPrefix (Name (hd (reader projArchive))) ''/'') = ''proj''"
    by code_simp
  have l: "ListFiles projArchive = Inr projListing"
    by code_simp
  have n: "map_of projListing ''src'' = None \<and> map_of projListing ''proj/a.txt'' = None"
    by code_simp
  from h l root_folder_stripping [of projArchive]
  have "GetRootFolder projArchive =
      first_segment (TrimPrefix (Name (hd (reader projArchive))) ''/'') \<and>
    distinct (map fst projListing) \<and>
    map_of projListing ''src/b.txt'' =
      (if ''src/b.txt'' = [] then None
       else List.find (listed (GetRootFolder projArchive) ''src/b.txt'')
              (rev (reader projArchive)))"
    by auto
  with h s l n show ?thesis by simp
qed


section \<open>The comparison loops\<close>

lemma fire_events_Nil: "fire_events cb [] s = s"
  by (simp add: fire_events_def split: option.splits)

lemma fire_events_Cons:
  "fire_events (OnProgress c) ((n, tot, m) # evs) s =
     fire_events (OnProgress c) evs (emitProgress c n tot m s)"
  by (simp add: fire_events_def emitProgress_def split: option.splits)

lemma fire_events_append:
  "fire_events cb (xs @ ys) s = fire_events cb ys (fire_events cb xs s)"
  by (simp add: fire_events_def split: option.splits)

lemma progress_events_append:
  "progress_events tot n (xs @ ys) =
     progress_events tot n xs @ progress_events tot (n + int (length xs)) ys"
  by (induction xs arbitrary: n) (simp_all add: add.assoc)

lemma zipLoop_step:
  "zipLoop sy rm c workFiles tot (e # rest) (result, processed, s) =
     (if shouldExclude rm c (fst e) False
      then zipLoop sy rm c workFiles tot rest (result, processed, s)
      else zipLoop sy rm c workFiles tot rest
             (result\<lparr>Items := Items result @ zipItems sy rm c workFiles e,
                     Deleted := Deleted result +
                       (if map_of workFiles (fst e) = None then 1 else 0),
                     Modified := Modified result +
                       (if map_of workFiles (fst e) \<noteq> None \<and> zipItems sy rm c workFiles e \<noteq> [] then 1 else 0)\<rparr>,
              processed + 1,
              emitProgress c (processed + 1) tot (checkMessage (fst e)) s))"
  by (cases e)
     (auto simp: zipItems_def deletedItem_def modifiedItem_def Let_def
           split: option.splits sum.splits)


lemma workLoop_step:
  "workLoop rm c zipFiles tot (e # rest) (result, processed, s) =
     (if shouldExclude rm c (fst e) False
      then workLoop rm c zipFiles tot rest (result, processed, s)
      else workLoop rm c zipFiles tot rest
             (result\<lparr>Items := Items result @ workItems rm c zipFiles e,
                     Added := Added result +
                       (if map_of zipFiles (fst e) = None then 1 else 0)\<rparr>,
              processed + 1,
              emitProgress c (processed + 1) tot (checkMessage (fst e)) s))"
  by (cases e)
     (auto simp: workItems_def addedItem_def Let_def ToSlash_id split: option.splits)

lemma zipItems_excluded:
  "shouldExclude rm c (fst e) False \<Longrightarrow> zipItems sy rm c workFiles e = []"
  by (simp add: zipItems_def)

lemma workItems_excluded:
  "shouldExclude rm c (fst e) False \<Longrightarrow> workItems rm c zipFiles e = []"
  by (simp add: workItems_def)

lemma zipLoop_Items:
  "Items (fst (zipLoop sy rm c workFiles tot zs (result, processed, s))) =
     Items result @ concat (map (zipItems sy rm c workFiles) zs)"
proof (induction zs arbitrary: result processed s)
  case Nil
  then show ?case by simp
next
  case (Cons e zs)
  show ?case
    by (simp only: zipLoop_step Cons.IH split: if_splits)
       (simp add: zipItems_excluded)
qed

lemma zipLoop_processed:
  "fst (snd (zipLoop sy rm c workFiles tot zs (result, processed, s))) =
     processed + int (length (examined rm c (map fst zs)))"
proof (induction zs arbitrary: result processed s)
  case Nil
  then show ?case by (simp add: examined_def)
next
  case (Cons e zs)
  show ?case
    by (simp only: zipLoop_step Cons.IH split: if_splits) (simp add: examined_def)
qed

lemma zipLoop_sink:
  "snd (snd (zipLoop sy rm c workFiles tot zs (result, processed, s))) =
     fire_events (OnProgress c) (progress_events tot processed (examined rm c (map fst zs))) s"
proof (induction zs arbitrary: result processed s)
  case Nil
  then show ?case by (simp add: examined_def fire_events_Nil)
next
  case (Cons e zs)
  show ?case
    by (simp only: zipLoop_step Cons.IH split: if_splits)
       (simp add: examined_def fire_events_Cons checkMessage_def)
qed

lemma workLoop_Items:
  "Items (fst (workLoop rm c zipFiles tot ws (result, processed, s))) =
     Items result @ concat (map (workItems rm c zipFiles) ws)"
proof (induction ws arbitrary: result processed s)
  case Nil
  then show ?case by simp
next
  case (Cons e ws)
  show ?case
    by (simp only: workLoop_step Cons.IH split: if_splits)
       (simp add: workItems_excluded)
qed

lemma workLoop_sink:
  "snd (snd (workLoop rm c zipFiles tot ws (result, processed, s))) =
     fire_events (OnProgress c) (progress_events tot processed (examined rm c (map fst ws))) s"
proof (induction ws arbitrary: result processed s)
  case Nil
  then show ?case by (simp add: examined_def fire_events_Nil)
next
  case (Cons e ws)
  show ?case
    by (simp only: workLoop_step Cons.IH split: if_splits)
       (simp add: examined_def fire_events_Cons checkMessage_def)
qed

text \<open>The run of \<open>Compare\<close> when the archive opens and the walk ends without an error.\<close>

lemma Compare_ok:
  assumes "zip_OpenReader sy (zipPath c) = Inr es"
    and "snd (filepath_Walk sy (workDir c)) = None"
  shows "\<exists>res. Compare sy rm c s =
      (Inr res,
       fire_events (OnProgress c)
         (progress_events (int (length (zipFilesOf sy c)) + int (length (workFilesOf sy c))) 0
            (examined rm c (map fst (zipRange sy c)) @
             examined rm c (map fst (workRange sy c)))) s) \<and>
     Items res = concat (map (zipItems sy rm c (workFilesOf sy c)) (zipRange sy c)) @
                 concat (map (workItems rm c (zipFilesOf sy c)) (workRange sy c))"
proof -
  let ?zf = "zipFilesOf sy c" and ?wf = "workFilesOf sy c"
  let ?zr = "zipRange sy c" and ?wr = "workRange sy c"
  let ?tot = "int (length ?zf) + int (length ?wf)"
  let ?r0 = "\<lparr>Items = [], TotalFiles = 0, Added = 0, Modified = 0, Deleted = 0\<rparr>"
  obtain r1 n1 s1 where z: "zipLoop sy rm c ?wf ?tot ?zr (?r0, 0, s) = (r1, n1, s1)"
    by (cases "zipLoop sy rm c ?wf ?tot ?zr (?r0, 0, s)") auto
  obtain r2 n2 s2 where w: "workLoop rm c ?zf ?tot ?wr (r1, n1, s1) = (r2, n2, s2)"
    by (cases "workLoop rm c ?zf ?tot ?wr (r1, n1, s1)") auto
  from z have r1: "Items r1 = concat (map (zipItems sy rm c ?wf) ?zr)"
    using zipLoop_Items [of sy rm c ?wf ?tot ?zr ?r0 0 s] by simp
  from z have n1: "n1 = int (length (examined rm c (map fst ?zr)))"
    using zipLoop_processed [of sy rm c ?wf ?tot ?zr ?r0 0 s] by simp
  from z have s1: "s1 = fire_events (OnProgress c)
      (progress_events ?tot 0 (examined rm c (map fst ?zr))) s"
    using zipLoop_sink [of sy rm c ?wf ?tot ?zr ?r0 0 s] by simp
  from w have r2: "Items r2 = Items r1 @ concat (map (workItems rm c ?zf) ?wr)"
    using workLoop_Items [of rm c ?zf ?tot ?wr r1 n1 s1] by simp
  from w have s2: "s2 = fire_events (OnProgress c)
      (progress_events ?tot n1 (examined rm c (map fst ?wr))) s1"
    using workLoop_sink [of rm c ?zf ?tot ?wr r1 n1 s1] by simp
  have zf: "ListFiles \<lparr>path = zipPath c, reader = es\<rparr> = Inr ?zf"
    using assms(1) by (simp add: zipFilesOf_def NewZipReader_def ListFiles_def)
  obtain visited where v: "filepath_Walk sy (workDir c) = (visited, None)"
    using assms(2) by (cases "filepath_Walk sy (workDir c)") auto
  obtain dirs where g: "getAllFilesAndDirs sy (workDir c) = (?wf, dirs, None)"
    using v by (cases "walkLoop visited ([], [])")
      (simp add: workFilesOf_def getAllFilesAndDirs_def)
  have "Compare sy rm c s = (Inr (r2\<lparr>TotalFiles := int (length (Items r2))\<rparr>), s2)"
    using assms(1) zf g z w
    by (simp add: Compare_def NewZipReader_def zipRange_def workRange_def)
  then show ?thesis
    by (simp add: r1 r2 s1 s2 n1 progress_events_append fire_events_append)
qed


lemma distinct_walkLoop:
  "distinct (map fst files) \<Longrightarrow> distinct (map fst (fst (walkLoop es (files, dirs))))"
proof (induction es arbitrary: files dirs)
  case Nil
  then show ?case by simp
next
  case (Cons e es)
  then show ?case by (simp add: Let_def distinct_update)
qed

lemma distinct_zipFilesOf: "distinct (map fst (zipFilesOf sy c))"
  by (simp add: zipFilesOf_def NewZipReader_def ListFiles_def distinct_listFilesLoop
      split: sum.splits)

lemma distinct_workFilesOf: "distinct (map fst (workFilesOf sy c))"
proof -
  obtain visited err where v: "filepath_Walk sy (workDir c) = (visited, err)"
    by (cases "filepath_Walk sy (workDir c)") auto
  have "workFilesOf sy c = fst (walkLoop visited ([], []))"
    using v by (cases "walkLoop visited ([], [])")
      (simp add: workFilesOf_def getAllFilesAndDirs_def)
  then show ?thesis using distinct_walkLoop [of "[]" visited "[]"] by simp
qed

lemma ranged_distinct:
  assumes "mset ys = mset xs" "distinct (map fst xs)"
  shows "distinct (map fst ys)" and "map_of ys = map_of xs"
proof -
  from assms(1) have "mset (map fst ys) = mset (map fst xs)"
    by (metis mset_map)
  with assms(2) show d: "distinct (map fst ys)"
    by (metis mset_eq_imp_distinct_iff)
  from assms(1) have "set ys = set xs"
    by (rule mset_eq_setD)
  with d assms(2) show "map_of ys = map_of xs"
    by (simp add: map_of_inject_set)
qed

lemma ranged_zip:
  assumes "ranged_once sy c"
  shows "distinct (map fst (zipRange sy c))" and "map_of (zipRange sy c) = map_of (zipFilesOf sy c)"
  using assms ranged_distinct [of "zipRange sy c" "zipFilesOf sy c"] distinct_zipFilesOf [of sy c]
  by (simp_all add: ranged_once_def)

lemma ranged_work:
  assumes "ranged_once sy c"
  shows "distinct (map fst (workRange sy c))"
    and "map_of (workRange sy c) = map_of (workFilesOf sy c)"
  using assms ranged_distinct [of "workRange sy c" "workFilesOf sy c"]
    distinct_workFilesOf [of sy c]
  by (simp_all add: ranged_once_def)

lemma zipItems_RelPath: "i \<in> set (zipItems sy rm c workFiles e) \<Longrightarrow> RelPath i = fst e"
  by (auto simp: zipItems_def deletedItem_def modifiedItem_def
      split: if_splits option.splits sum.splits)

lemma workItems_RelPath: "i \<in> set (workItems rm c zipFiles e) \<Longrightarrow> RelPath i = fst e"
  by (auto simp: workItems_def addedItem_def split: if_splits option.splits)

lemma filter_concat_keyed:
  assumes "distinct (map fst xs)" and "\<And>e i. i \<in> set (g e) \<Longrightarrow> RelPath i = fst e"
  shows "filter (\<lambda>i. RelPath i = p) (concat (map g xs)) =
     (case map_of xs p of None \<Rightarrow> [] | Some v \<Rightarrow> g (p, v))"
  using assms(1)
proof (induction xs)
  case Nil
  then show ?case by simp
next
  case (Cons x xs)
  have all: "filter (\<lambda>i. RelPath i = p) (g e) = (if fst e = p then g e else [])" for e
    using assms(2) [of _ e] by (auto simp: filter_empty_conv filter_id_conv)
  from Cons.prems have notin: "map_of xs (fst x) = None"
    by (simp add: map_of_eq_None_iff)
  show ?case
  proof (cases "fst x = p")
    case True
    with Cons notin show ?thesis by (cases x) (simp add: all)
  next
    case False
    with Cons show ?thesis by (cases x) (simp add: all)
  qed
qed

lemma Compare_Inr:
  assumes "fst (Compare sy rm c s) = Inr res"
  shows "(\<exists>es. zip_OpenReader sy (zipPath c) = Inr es) \<and> snd (filepath_Walk sy (workDir c)) = None"
proof -
  obtain es where es: "zip_OpenReader sy (zipPath c) = Inr es"
    using assms by (cases "zip_OpenReader sy (zipPath c)") (simp_all add: Compare_def NewZipReader_def)
  have "snd (filepath_Walk sy (workDir c)) = None"
  proof (rule ccontr)
    assume "snd (filepath_Walk sy (workDir c)) \<noteq> None"
    then obtain visited err where v: "filepath_Walk sy (workDir c) = (visited, Some err)"
      by (cases "filepath_Walk sy (workDir c)") auto
    then have "\<exists>e. fst (Compare sy rm c s) = Inl e"
      using es by (cases "walkLoop visited ([], [])")
        (simp add: Compare_def NewZipReader_def ListFiles_def getAllFilesAndDirs_def)
    with assms show False by auto
  qed
  with es show ?thesis by blast
qed

lemma Compare_items_for_path:
  assumes "fst (Compare sy rm c s) = Inr res" and ro: "ranged_once sy c"
  shows "filter (\<lambda>i. RelPath i = p) (Items res) =
     (case map_of (zipFilesOf sy c) p of
        None \<Rightarrow> []
      | Some zf \<Rightarrow> zipItems sy rm c (workFilesOf sy c) (p, zf)) @
     (case map_of (workFilesOf sy c) p of
        None \<Rightarrow> []
      | Some wp \<Rightarrow> workItems rm c (zipFilesOf sy c) (p, wp))"
proof -
  from Compare_Inr [OF assms(1)] obtain es where
    "zip_OpenReader sy (zipPath c) = Inr es" "snd (filepath_Walk sy (workDir c)) = None"
    by blast
  from Compare_ok [OF this, of rm s] assms(1)
  have "Items res = concat (map (zipItems sy rm c (workFilesOf sy c)) (zipRange sy c)) @
                 concat (map (workItems rm c (zipFilesOf sy c)) (workRange sy c))"
    by auto
  then show ?thesis
    by (simp add: filter_concat_keyed [OF ranged_zip(1) [OF ro] zipItems_RelPath]
        filter_concat_keyed [OF ranged_work(1) [OF ro] workItems_RelPath]
        ranged_zip(2) [OF ro] ranged_work(2) [OF ro])
qed

text \<open>
  C1, as amended. When \<open>Compare\<close> returns a result, \<open>range\<close> visiting every entry
  of each mapping once, the items of the result for a path are: one \<open>deleted\<close> item
  with an empty source path, for a path of the archive mapping that is not excluded
  and not in the working-directory mapping; one \<open>added\<close> item, for a path of the
  working-directory mapping that is not excluded and not in the archive mapping; one
  \<open>modified\<close> item whose source path is the path of the working-directory file, for
  a path of both mappings that is not excluded and whose two digests are computed and
  differ; no item for a path of both mappings whose two contents are read and are
  equal; no item for an excluded path.
\<close>

theorem compare_classification:
  "ranged_once sy c \<and> fst (Compare sy rm c s) = Inr res \<longrightarrow>
     (map_of (zipFilesOf sy c) p = Some zf \<and> map_of (workFilesOf sy c) p = None \<and>
        \<not> shouldExclude rm c p False
        \<longrightarrow> filter (\<lambda>i. RelPath i = p) (Items res) = [deletedItem p]) \<and>
     (map_of (zipFilesOf sy c) p = None \<and> map_of (workFilesOf sy c) p = Some wp \<and>
        \<not> shouldExclude rm c p False
        \<longrightarrow> filter (\<lambda>i. RelPath i = p) (Items res) = [addedItem p wp]) \<and>
     (map_of (zipFilesOf sy c) p = Some zf \<and> map_of (workFilesOf sy c) p = Some wp \<and>
        \<not> shouldExclude rm c p False \<and>
        getZipFileHash sy zf = Inr zipHash \<and> fileHash sy wp = Inr workHash \<and> zipHash \<noteq> workHash
        \<longrightarrow> filter (\<lambda>i. RelPath i = p) (Items res) = [modifiedItem p wp]) \<and>
     (map_of (zipFilesOf sy c) p = Some zf \<and> map_of (workFilesOf sy c) p = Some wp \<and>
        zip_Open sy zf = Inr bytes \<and> os_ReadFile sy wp = Inr bytes
        \<longrightarrow> filter (\<lambda>i. RelPath i = p) (Items res) = []) \<and>
     (shouldExclude rm c p False \<longrightarrow> filter (\<lambda>i. RelPath i = p) (Items res) = [])"
proof
  assume "ranged_once sy c \<and> fst (Compare sy rm c s) = Inr res"
  then have ro: "ranged_once sy c" and ok: "fst (Compare sy rm c s) = Inr res"
    by blast+
  note items = Compare_items_for_path [OF ok ro, of p]
  show "(map_of (zipFilesOf sy c) p = Some zf \<and> map_of (workFilesOf sy c) p = None \<and>
        \<not> shouldExclude rm c p False
        \<longrightarrow> filter (\<lambda>i. RelPath i = p) (Items res) = [deletedItem p]) \<and>
     (map_of (zipFilesOf sy c) p = None \<and> map_of (workFilesOf sy c) p = Some wp \<and>
        \<not> shouldExclude rm c p False
        \<longrightarrow> filter (\<lambda>i. RelPath i = p) (Items res) = [addedItem p wp]) \<and>
     (map_of (zipFilesOf sy c) p = Some zf \<and> map_of (workFilesOf sy c) p = Some wp \<and>
        \<not> shouldExclude rm c p False \<and>
        getZipFileHash sy zf = Inr zipHash \<and> fileHash sy wp = Inr workHash \<and> zipHash \<noteq> workHash
        \<longrightarrow> filter (\<lambda>i. RelPath i = p) (Items res) = [modifiedItem p wp]) \<and>
     (map_of (zipFilesOf sy c) p = Some zf \<and> map_of (workFilesOf sy c) p = Some wp \<and>
        zip_Open sy zf = Inr bytes \<and> os_ReadFile sy wp = Inr bytes
        \<longrightarrow> filter (\<lambda>i. RelPath i = p) (Items res) = []) \<and>
     (shouldExclude rm c p False \<longrightarrow> filter (\<lambda>i. RelPath i = p) (Items res) = [])"
    unfolding items
    by (auto simp: zipItems_def workItems_def getZipFileHash_def fileHash_def
        split: option.splits)
qed


lemma demo_ranged: "ranged_once demoSys demoComparer"
  by (simp add: ranged_once_def zipRange_def workRange_def demoSys_def)

lemma demo_run:
  "Compare demoSys MatchString demoComparer [] =
     (Inr \<lparr>Items = [deletedItem ''b.txt'', modifiedItem ''m.txt'' ''/w/m.txt'',
                    addedItem ''c.txt'' ''/w/c.txt''],
           TotalFiles = 3, Added = 1, Modified = 1, Deleted = 1\<rparr>,
      [(1, 10, checkMessage ''a.txt''), (2, 10, checkMessage ''b.txt''),
       (3, 10, checkMessage ''m.txt''), (4, 10, checkMessage ''locked.txt''),
       (5, 10, checkMessage ''m.txt''), (6, 10, checkMessage ''locked.txt''),
       (7, 10, checkMessage ''c.txt''), (8, 10, checkMessage ''a.txt'')])"
  by code_simp


text \<open>
  The claim as stated fails for an excluded path: \<open>bin/tool.dll\<close> is in both mappings,
  its two digests differ, and the result has no item for it.
\<close>

theorem compare_classification_counterexample:
  "map_of (zipFilesOf demoSys demoComparer) ''bin/tool.dll'' =
     Some \<lparr>Name = ''root/bin/tool.dll'', ExternalDir = False\<rparr> \<and>
   map_of (workFilesOf demoSys demoComparer) ''bin/tool.dll'' = Some ''/w/bin/tool.dll'' \<and>
   getZipFileHash demoSys \<lparr>Name = ''root/bin/tool.dll'', ExternalDir = False\<rparr> = Inr ''old'' \<and>
   fileHash demoSys ''/w/bin/tool.dll'' = Inr ''new'' \<and>
   fst (Compare demoSys MatchString demoComparer []) =
     Inr \<lparr>Items = [deletedItem ''b.txt'', modifiedItem ''m.txt'' ''/w/m.txt'',
                    addedItem ''c.txt'' ''/w/c.txt''],
          TotalFiles = 3, Added = 1, Modified = 1, Deleted = 1\<rparr>"
  by code_simp

theorem compare_classification_witness:
  "ranged_once demoSys demoComparer \<and>
   fst (Compare demoSys MatchString demoComparer []) = Inr demoResult \<and>
   filter (\<lambda>i. RelPath i = ''b.txt'') (Items demoResult) = [deletedItem ''b.txt''] \<and>
   filter (\<lambda>i. RelPath i = ''c.txt'') (Items demoResult) = [addedItem ''c.txt'' ''/w/c.txt''] \<and>
   filter (\<lambda>i. RelPath i = ''m.txt'') (Items demoResult) = [modifiedItem ''m.txt'' ''/w/m.txt''] \<and>
   filter (\<lambda>i. RelPath i = ''a.txt'') (Items demoResult) = [] \<and>
   filter (\<lambda>i. RelPath i = ''bin/tool.dll'') (Items demoResult) = []"
proof -
  note ro = demo_ranged
  have run: "fst (Compare demoSys MatchString demoComparer []) = Inr demoResult"
    by code_simp
  have b: "map_of (zipFilesOf demoSys demoComparer) ''b.txt'' =
        Some \<lparr>Name = ''root/b.txt'', ExternalDir = False\<rparr> \<and>
      map_of (workFilesOf demoSys demoComparer) ''b.txt'' = None \<and>
      \<not> shouldExclude MatchString demoComparer ''b.txt'' False"
    by code_simp
  have c: "map_of (zipFilesOf demoSys demoComparer) ''c.txt'' = None \<and>
      map_of (workFilesOf demoSys demoComparer) ''c.txt'' = Some ''/w/c.txt'' \<and>
      \<not> shouldExclude MatchString demoComparer ''c.txt'' False"
    by code_simp
  have m: "map_of (zipFilesOf demoSys demoComparer) ''m.txt'' =
        Some \<lparr>Name = ''root/m.txt'', ExternalDir = False\<rparr> \<and>
      map_of (workFilesOf demoSys demoComparer) ''m.txt'' = Some ''/w/m.txt'' \<and>
      \<not> shouldExclude MatchString demoComparer ''m.txt'' False \<and>
      getZipFileHash demoSys \<lparr>Name = ''root/m.txt'', ExternalDir = False\<rparr> = Inr ''old'' \<and>
      fileHash demoSys ''/w/m.txt'' = Inr ''new'' \<and> ''old'' \<noteq> ''new''"
    by code_simp
  have a: "map_of (zipFilesOf demoSys demoComparer) ''a.txt'' =
        Some \<lparr>Name = ''root/a.txt'', ExternalDir = False\<rparr> \<and>
      map_of (workFilesOf demoSys demoComparer) ''a.txt'' = Some ''/w/a.txt'' \<and>
      zip_Open demoSys \<lparr>Name = ''root/a.txt'', ExternalDir = False\<rparr> = Inr ''1'' \<and>
      os_ReadFile demoSys ''/w/a.txt'' = Inr ''1''"
    by code_simp
  have x: "shouldExclude MatchString demoComparer ''bin/tool.dll'' False"
    by code_simp
  from ro run b
    compare_classification [of demoSys demoComparer MatchString "[]" demoResult "''b.txt''"
      "\<lparr>Name = ''root/b.txt'', ExternalDir = False\<rparr>"]
  have 1: "filter (\<lambda>i. RelPath i = ''b.txt'') (Items demoResult) = [deletedItem ''b.txt'']"
    by blast
  from ro run c
    compare_classification [of demoSys demoComparer MatchString "[]" demoResult "''c.txt''"
      _ "''/w/c.txt''"]
  have 2: "filter (\<lambda>i. RelPath i = ''c.txt'') (Items demoResult) = [addedItem ''c.txt'' ''/w/c.txt'']"
    by blast
  from ro run m
    compare_classification [of demoSys demoComparer MatchString "[]" demoResult "''m.txt''"
      "\<lparr>Name = ''root/m.txt'', ExternalDir = False\<rparr>" "''/w/m.txt''" "''old''" "''new''"]
  have 3: "filter (\<lambda>i. RelPath i = ''m.txt'') (Items demoResult) = [modifiedItem ''m.txt'' ''/w/m.txt'']"
    by blast
  from ro run a
    compare_classification [of demoSys demoComparer MatchString "[]" demoResult "''a.txt''"
      "\<lparr>Name = ''root/a.txt'', ExternalDir = False\<rparr>" "''/w/a.txt''" _ _ "''1''"]
  have 4: "filter (\<lambda>i. RelPath i = ''a.txt'') (Items demoResult) = []"
    by blast
  from ro run x
    compare_classification [of demoSys demoComparer MatchString "[]" demoResult "''bin/tool.dll''"]
  have 5: "filter (\<lambda>i. RelPath i = ''bin/tool.dll'') (Items demoResult) = []"
    by blast
  from ro run 1 2 3 4 5 show ?thesis by blast
qed

lemma concat_map_filter_empty:
  "(\<And>x. x \<in> set xs \<Longrightarrow> \<not> P x \<Longrightarrow> g x = []) \<Longrightarrow>
     concat (map g xs) = concat (map g (filter P xs))"
  by (induction xs) auto

text \<open>
  C5. When a path is in both mappings and the digest of one side cannot be computed,
  \<open>Compare\<close> still returns a result and no error; the result has no item for this
  path, and its items are those of the other paths of the archive, in the order of
  the visit, followed by the added items.
\<close>

theorem hash_failure_skips_pair:
  "ranged_once sy c \<and>
   zip_OpenReader sy (zipPath c) = Inr es \<and> snd (filepath_Walk sy (workDir c)) = None \<and>
   map_of (zipFilesOf sy c) p = Some zf \<and> map_of (workFilesOf sy c) p = Some wp \<and>
   (getZipFileHash sy zf = Inl err \<or> fileHash sy wp = Inl err) \<longrightarrow>
   (\<exists>res s'. Compare sy rm c s = (Inr res, s') \<and>
      filter (\<lambda>i. RelPath i = p) (Items res) = [] \<and>
      Items res =
        concat (map (zipItems sy rm c (workFilesOf sy c))
                  (filter (\<lambda>e. fst e \<noteq> p) (zipRange sy c))) @
        concat (map (workItems rm c (zipFilesOf sy c)) (workRange sy c)))"
proof
  assume asm: "ranged_once sy c \<and>
   zip_OpenReader sy (zipPath c) = Inr es \<and> snd (filepath_Walk sy (workDir c)) = None \<and>
   map_of (zipFilesOf sy c) p = Some zf \<and> map_of (workFilesOf sy c) p = Some wp \<and>
   (getZipFileHash sy zf = Inl err \<or> fileHash sy wp = Inl err)"
  then have ro: "ranged_once sy c"
    and op: "zip_OpenReader sy (zipPath c) = Inr es"
    and wk: "snd (filepath_Walk sy (workDir c)) = None"
    and inz: "map_of (zipFilesOf sy c) p = Some zf"
    and inw: "map_of (workFilesOf sy c) p = Some wp"
    and fail: "getZipFileHash sy zf = Inl err \<or> fileHash sy wp = Inl err"
    by blast+
  from Compare_ok [OF op wk, of rm s] obtain res s' where
    run: "Compare sy rm c s = (Inr res, s')" and
    items: "Items res = concat (map (zipItems sy rm c (workFilesOf sy c)) (zipRange sy c)) @
                 concat (map (workItems rm c (zipFilesOf sy c)) (workRange sy c))"
    by blast
  have skip: "zipItems sy rm c (workFilesOf sy c) (p, zf) = []"
    using inw fail by (auto simp: zipItems_def split: sum.splits)
  have noadd: "workItems rm c (zipFilesOf sy c) (p, wp) = []"
    using inz by (simp add: workItems_def)
  have "fst (Compare sy rm c s) = Inr res"
    using run by simp
  from Compare_items_for_path [OF this ro, of p]
  have none: "filter (\<lambda>i. RelPath i = p) (Items res) = []"
    by (simp add: inz inw skip noadd)
  have "zipItems sy rm c (workFilesOf sy c) e = []"
    if "e \<in> set (zipRange sy c)" "\<not> fst e \<noteq> p" for e
  proof -
    from that have "(p, snd e) \<in> set (zipRange sy c)"
      by (metis prod.collapse)
    then have "map_of (zipRange sy c) p = Some (snd e)"
      by (rule map_of_is_SomeI [OF ranged_zip(1) [OF ro]])
    then have "map_of (zipFilesOf sy c) p = Some (snd e)"
      by (simp add: ranged_zip(2) [OF ro])
    with inz that(2) have "e = (p, zf)"
      by (metis option.inject prod.collapse)
    with skip show ?thesis by simp
  qed
  from concat_map_filter_empty [of "zipRange sy c" "\<lambda>e. fst e \<noteq> p"
      "zipItems sy rm c (workFilesOf sy c)", OF this]
  have "concat (map (zipItems sy rm c (workFilesOf sy c)) (zipRange sy c)) =
      concat (map (zipItems sy rm c (workFilesOf sy c))
                (filter (\<lambda>e. fst e \<noteq> p) (zipRange sy c)))"
    by simp
  with items run none
  show "\<exists>res s'. Compare sy rm c s = (Inr res, s') \<and>
      filter (\<lambda>i. RelPath i = p) (Items res) = [] \<and>
      Items res =
        concat (map (zipItems sy rm c (workFilesOf sy c))
                  (filter (\<lambda>e. fst e \<noteq> p) (zipRange sy c))) @
        concat (map (workItems rm c (zipFilesOf sy c)) (workRange sy c))"
    by simp
qed


theorem hash_failure_skips_pair_witness:
  "ranged_once demoSys demoComparer \<and>
   zip_OpenReader demoSys (zipPath demoComparer) = Inr demoEntries \<and>
   snd (filepath_Walk demoSys (workDir demoComparer)) = None \<and>
   map_of (zipFilesOf demoSys demoComparer) ''locked.txt'' =
     Some \<lparr>Name = ''root/locked.txt'', ExternalDir = False\<rparr> \<and>
   map_of (workFilesOf demoSys demoComparer) ''locked.txt'' = Some ''/w/locked.txt'' \<and>
   fileHash demoSys ''/w/locked.txt'' = Inl (Error ''file is locked'') \<and>
   fst (Compare demoSys MatchString demoComparer []) = Inr demoResult \<and>
   filter (\<lambda>i. RelPath i = ''locked.txt'') (Items demoResult) = []"
proof -
  have h: "zip_OpenReader demoSys (zipPath demoComparer) = Inr demoEntries \<and>
     snd (filepath_Walk demoSys (workDir demoComparer)) = None \<and>
     map_of (zipFilesOf demoSys demoComparer) ''locked.txt'' =
       Some \<lparr>Name = ''root/locked.txt'', ExternalDir = False\<rparr> \<and>
     map_of (workFilesOf demoSys demoComparer) ''locked.txt'' = Some ''/w/locked.txt'' \<and>
     fileHash demoSys ''/w/locked.txt'' = Inl (Error ''file is locked'')"
    by code_simp
  have run: "fst (Compare demoSys MatchString demoComparer []) = Inr demoResult"
    by code_simp
  from h demo_ranged
    hash_failure_skips_pair [of demoSys demoComparer demoEntries "''locked.txt''"
      "\<lparr>Name = ''root/locked.txt'', ExternalDir = False\<rparr>" "''/w/locked.txt''"
      "Error ''file is locked''" MatchString "[]"]
  obtain res s' where "Compare demoSys MatchString demoComparer [] = (Inr res, s')"
    and none: "filter (\<lambda>i. RelPath i = ''locked.txt'') (Items res) = []"
    by blast
  with run have "res = demoResult" by simp
  with none h run demo_ranged show ?thesis by blast
qed

lemma progress_events_length: "length (progress_events tot n ps) = length ps"
  by (induction ps arbitrary: n) simp_all

lemma progress_events_nth:
  "k < length ps \<Longrightarrow>
     progress_events tot n ps ! k =
       (n + int k + 1, tot, [CHR 0xE6, CHR 0xA3, CHR 0x80, CHR 0xE6, CHR 0x9F, CHR 0xA5] @ '': '' @ ps ! k)"
proof (induction ps arbitrary: n k)
  case Nil
  then show ?case by simp
next
  case (Cons p ps)
  then show ?case by (cases k) simp_all
qed

text \<open>
  C6. The state of the caller after \<open>Compare\<close> is the state after the callback has
  been called once for each path examined, first those of the archive mapping and
  then those of the working-directory mapping, in the order of the visits, a path of
  both being examined twice. The call number \<open>k + 1\<close> has the counter \<open>k + 1\<close>, the
  total, which is the sum of the sizes of the two mappings, and a message that names
  the path number \<open>k\<close>: the UTF-8 text of the two characters U+68C0 and U+67E5, a
  colon, a space and the path. A path examined is a path that is not excluded: when
  \<open>range\<close> visits every entry once, the paths examined are the paths of the two
  mappings that are not excluded, each one once for each mapping that has it.
\<close>

theorem progress_reporting:
  "zip_OpenReader sy (zipPath c) = Inr es \<and> snd (filepath_Walk sy (workDir c)) = None \<longrightarrow>
     snd (Compare sy rm c s) =
       fire_events (OnProgress c)
         (progress_events (progress_total sy c) 0 (examined_paths sy rm c)) s \<and>
     length (progress_events (progress_total sy c) 0 (examined_paths sy rm c)) =
       length (examined_paths sy rm c) \<and>
     (\<forall>k < length (examined_paths sy rm c).
        progress_events (progress_total sy c) 0 (examined_paths sy rm c) ! k =
          (int k + 1, progress_total sy c,
           [CHR 0xE6, CHR 0xA3, CHR 0x80, CHR 0xE6, CHR 0x9F, CHR 0xA5] @ '': '' @
           examined_paths sy rm c ! k)) \<and>
     (ranged_once sy c \<longrightarrow>
        mset (examined_paths sy rm c) =
          mset (examined rm c (map fst (zipFilesOf sy c))) +
          mset (examined rm c (map fst (workFilesOf sy c))))"
proof
  assume "zip_OpenReader sy (zipPath c) = Inr es \<and> snd (filepath_Walk sy (workDir c)) = None"
  then have op: "zip_OpenReader sy (zipPath c) = Inr es"
    and wk: "snd (filepath_Walk sy (workDir c)) = None"
    by blast+
  have once: "mset (examined_paths sy rm c) =
      mset (examined rm c (map fst (zipFilesOf sy c))) +
      mset (examined rm c (map fst (workFilesOf sy c)))"
    if "ranged_once sy c"
  proof -
    from that have "mset (map fst (zipRange sy c)) = mset (map fst (zipFilesOf sy c))"
      and "mset (map fst (workRange sy c)) = mset (map fst (workFilesOf sy c))"
      by (metis mset_map ranged_once_def)+
    then have "mset (examined rm c (map fst (zipRange sy c))) =
        mset (examined rm c (map fst (zipFilesOf sy c)))"
      and "mset (examined rm c (map fst (workRange sy c))) =
        mset (examined rm c (map fst (workFilesOf sy c)))"
      by (metis examined_def mset_filter)+
    then show ?thesis by (simp add: examined_paths_def)
  qed
  from Compare_ok [OF op wk, of rm s]
  have "snd (Compare sy rm c s) =
       fire_events (OnProgress c)
         (progress_events (progress_total sy c) 0 (examined_paths sy rm c)) s"
    by (auto simp: progress_total_def examined_paths_def)
  then show "snd (Compare sy rm c s) =
       fire_events (OnProgress c)
         (progress_events (progress_total sy c) 0 (examined_paths sy rm c)) s \<and>
     length (progress_events (progress_total sy c) 0 (examined_paths sy rm c)) =
       length (examined_paths sy rm c) \<and>
     (\<forall>k < length (examined_paths sy rm c).
        progress_events (progress_total sy c) 0 (examined_paths sy rm c) ! k =
          (int k + 1, progress_total sy c,
           [CHR 0xE6, CHR 0xA3, CHR 0x80, CHR 0xE6, CHR 0x9F, CHR 0xA5] @ '': '' @
           examined_paths sy rm c ! k)) \<and>
     (ranged_once sy c \<longrightarrow>
        mset (examined_paths sy rm c) =
          mset (examined rm c (map fst (zipFilesOf sy c))) +
          mset (examined rm c (map fst (workFilesOf sy c))))"
    using once by (simp add: progress_events_length progress_events_nth)
qed

theorem progress_reporting_witness:
  "ranged_once demoSys demoComparer \<and>
   zip_OpenReader demoSys (zipPath demoComparer) = Inr demoEntries \<and>
   snd (filepath_Walk demoSys (workDir demoComparer)) = None \<and>
   length (zipFilesOf demoSys demoComparer) = 5 \<and>
   length (workFilesOf demoSys demoComparer) = 5 \<and>
   progress_total demoSys demoComparer = 10 \<and>
   examined_paths demoSys MatchString demoComparer =
     [''a.txt'', ''b.txt'', ''m.txt'', ''locked.txt'',
      ''m.txt'', ''locked.txt'', ''c.txt'', ''a.txt''] \<and>
   length (Items demoResult) = 3 \<and>
   mset (examined_paths demoSys MatchString demoComparer) =
     mset (examined MatchString demoComparer (map fst (zipFilesOf demoSys demoComparer))) +
     mset (examined MatchString demoComparer (map fst (workFilesOf demoSys demoComparer))) \<and>
   snd (Compare demoSys MatchString demoComparer []) =
     [(1, 10, [CHR 0xE6, CHR 0xA3, CHR 0x80, CHR 0xE6, CHR 0x9F, CHR 0xA5] @ '': a.txt''),
      (2, 10, [CHR 0xE6, CHR 0xA3, CHR 0x80, CHR 0xE6, CHR 0x9F, CHR 0xA5] @ '': b.txt''),
      (3, 10, [CHR 0xE6, CHR 0xA3, CHR 0x80, CHR 0xE6, CHR 0x9F, CHR 0xA5] @ '': m.txt''),
      (4, 10, [CHR 0xE6, CHR 0xA3, CHR 0x80, CHR 0xE6, CHR 0x9F, CHR 0xA5] @ '': locked.txt''),
      (5, 10, [CHR 0xE6, CHR 0xA3, CHR 0x80, CHR 0xE6, CHR 0x9F, CHR 0xA5] @ '': m.txt''),
      (6, 10, [CHR 0xE6, CHR 0xA3, CHR 0x80, CHR 0xE6, CHR 0x9F, CHR 0xA5] @ '': locked.txt''),
      (7, 10, [CHR 0xE6, CHR 0xA3, CHR 0x80, CHR 0xE6, CHR 0x9F, CHR 0xA5] @ '': c.txt''),
      (8, 10, [CHR 0xE6, CHR 0xA3, CHR 0x80, CHR 0xE6, CHR 0x9F, CHR 0xA5] @ '': a.txt'')]"
proof -
  have h: "zip_OpenReader demoSys (zipPath demoComparer) = Inr demoEntries \<and>
      snd (filepath_Walk demoSys (workDir demoComparer)) = None"
    by code_simp
  have t: "length (zipFilesOf demoSys demoComparer) = 5 \<and>
      length (workFilesOf demoSys demoComparer) = 5 \<and>
      progress_total demoSys demoComparer = 10"
    by code_simp
  have e: "examined_paths demoSys MatchString demoComparer =
     [''a.txt'', ''b.txt'', ''m.txt'', ''locked.txt'',
      ''m.txt'', ''locked.txt'', ''c.txt'', ''a.txt'']"
    by code_simp
  have n: "length (Items demoResult) = 3"
    by code_simp
  have cb: "OnProgress demoComparer = Some logEvent"
    by (simp add: demoComparer_def)
  note inst = progress_reporting [of demoSys demoComparer demoEntries MatchString "[]"]
  from h demo_ranged inst
  have ms: "mset (examined_paths demoSys MatchString demoComparer) =
     mset (examined MatchString demoComparer (map fst (zipFilesOf demoSys demoComparer))) +
     mset (examined MatchString demoComparer (map fst (workFilesOf demoSys demoComparer)))"
    by blast
  from h inst
  have "snd (Compare demoSys MatchString demoComparer []) =
       fire_events (OnProgress demoComparer)
         (progress_events (progress_total demoSys demoComparer) 0
            (examined_paths demoSys MatchString demoComparer)) []"
    by blast
  then have "snd (Compare demoSys MatchString demoComparer []) =
     [(1, 10, [CHR 0xE6, CHR 0xA3, CHR 0x80, CHR 0xE6, CHR 0x9F, CHR 0xA5] @ '': a.txt''),
      (2, 10, [CHR 0xE6, CHR 0xA3, CHR 0x80, CHR 0xE6, CHR 0x9F, CHR 0xA5] @ '': b.txt''),
      (3, 10, [CHR 0xE6, CHR 0xA3, CHR 0x80, CHR 0xE6, CHR 0x9F, CHR 0xA5] @ '': m.txt''),
      (4, 10, [CHR 0xE6, CHR 0xA3, CHR 0x80, CHR 0xE6, CHR 0x9F, CHR 0xA5] @ '': locked.txt''),
      (5, 10, [CHR 0xE6, CHR 0xA3, CHR 0x80, CHR 0xE6, CHR 0x9F, CHR 0xA5] @ '': m.txt''),
      (6, 10, [CHR 0xE6, CHR 0xA3, CHR 0x80, CHR 0xE6, CHR 0x9F, CHR 0xA5] @ '': locked.txt''),
      (7, 10, [CHR 0xE6, CHR 0xA3, CHR 0x80, CHR 0xE6, CHR 0x9F, CHR 0xA5] @ '': c.txt''),
      (8, 10, [CHR 0xE6, CHR 0xA3, CHR 0x80, CHR 0xE6, CHR 0x9F, CHR 0xA5] @ '': a.txt'')]"
    unfolding e cb using t by (simp add: fire_events_def logEvent_def)
  with h t e n ms demo_ranged show ?thesis by blast
qed


section \<open>The steps of an export\<close>
























section \<open>The lines of a diff\<close>

lemma lineLoop_Lines:
  "n = i + int (length ls) \<Longrightarrow>
     Lines (lineLoop diff n i ls result) =
       Lines result @
       map (\<lambda>line. \<lparr>DiffLine.Type = lineType (Diff.Type diff), Content = line\<rparr>) (keptLines ls)"
proof (induction ls arbitrary: i result)
  case Nil
  then show ?case by (simp add: keptLines_def)
next
  case (Cons l ls)
  have ty: "(case Diff.Type diff of DiffInsert \<Rightarrow> ''insert'' | DiffDelete \<Rightarrow> ''delete''
             | _ \<Rightarrow> ''equal'') = lineType (Diff.Type diff)"
    by (simp add: lineType_def split: Operation.splits)
  from Cons.prems have n: "n = (i + 1) + int (length ls)" by simp
  show ?case
  proof (cases "ls = []")
    case True
    with Cons.prems show ?thesis
      by (simp add: keptLines_def ty Let_def)
  next
    case False
    with Cons.prems have "i \<noteq> n - 1" by (cases ls) simp_all
    with False show ?thesis
      by (simp add: Cons.IH [OF n] keptLines_def ty Let_def)
  qed
qed

lemma Join_Cons: "Join (y # ys) sep = (if ys = [] then y else y @ sep @ Join ys sep)"
  by (cases ys) simp_all

lemma Join_Split_single: "Join (Split s [c]) [c] = s"
proof (induction s)
  case Nil
  then show ?case by (simp add: Split_single_Nil)
next
  case (Cons x s)
  then show ?case
    using Split_single_nonempty [of s c]
    by (cases "Split s [c]") (auto simp: Split_single_Cons Join_Cons)
qed

lemma Split_single_snoc: "Split (s @ [c]) [c] = Split s [c] @ [[]]"
  using Split_single_append [of s c "[]"] by (simp add: Split_single_Nil)

lemma last_Split_single: "last (Split s [c]) = [] \<longleftrightarrow> s = [] \<or> last s = c"
proof (cases s rule: rev_cases)
  case Nil
  then show ?thesis by (simp add: Split_single_Nil)
next
  case (snoc t x)
  show ?thesis
  proof (cases "x = c")
    case True
    with snoc show ?thesis by (simp add: Split_single_snoc)
  next
    case False
    have "last (Split (t @ [x]) [c]) \<noteq> []"
    proof (induction t)
      case Nil
      from False show ?case by (simp add: Split_single_Nil Split_single_Cons)
    next
      case (Cons y t)
      then show ?case
        using Split_single_nonempty [of "t @ [x]" c]
        by (cases "Split (t @ [x]) [c]") (auto simp: Split_single_Cons)
    qed
    with snoc False show ?thesis by simp
  qed
qed

lemma Join_keptLines_Split:
  "Join (keptLines (Split a [newline])) [newline] = withoutFinalNewline a"
proof (cases "a \<noteq> [] \<and> last a = newline")
  case True
  then obtain t where a: "a = t @ [newline]"
    by (metis append_butlast_last_id)
  show ?thesis
    unfolding a by (simp add: Split_single_snoc keptLines_def withoutFinalNewline_def Join_Split_single)
next
  case False
  show ?thesis
  proof (cases "a = []")
    case True
    then show ?thesis
      by (simp add: Split_single_Nil keptLines_def withoutFinalNewline_def)
  next
    case ne: False
    with False have "last (Split a [newline]) \<noteq> []"
      by (simp add: last_Split_single)
    with False ne show ?thesis
      by (auto simp: keptLines_def withoutFinalNewline_def Join_Split_single)
  qed
qed

lemma validLoop_runesLoop: "validLoop k s \<Longrightarrow> runesLoop k s = s"
proof (induction s arbitrary: k)
  case Nil
  then show ?case by simp
next
  case (Cons c cs)
  then show ?case by (cases "runeWidth (c # cs)") (auto split: if_splits)
qed

lemma ValidString_throughRunes: "ValidString s \<Longrightarrow> throughRunes s = s"
  by (simp add: ValidString_def throughRunes_def validLoop_runesLoop)

text \<open>
  C9. For a text \<open>a\<close>, when the diff library answers for the two equal texts as
  \<open>equalTexts\<close> says, every line of \<open>CompareTexts d a a\<close> has the type \<open>equal\<close>, and
  the contents of the lines, joined with newlines, are the string of the runes of \<open>a\<close>
  without its final newline. When \<open>a\<close> is valid UTF-8 the string of its runes is \<open>a\<close>,
  and the lines give \<open>a\<close> back: they are \<open>a\<close> when \<open>a\<close> does not end with a newline,
  and \<open>a\<close> when the final newline is put back otherwise.
\<close>

theorem diff_of_equal_texts:
  "equalTexts (dmp d) a \<longrightarrow>
     (\<forall>l \<in> set (Lines (CompareTexts d a a)). DiffLine.Type l = ''equal'') \<and>
     Join (map Content (Lines (CompareTexts d a a))) [newline] =
       withoutFinalNewline (throughRunes a) \<and>
     (ValidString a \<longrightarrow>
        throughRunes a = a \<and>
        (a = [] \<or> last a \<noteq> newline \<longrightarrow>
           Join (map Content (Lines (CompareTexts d a a))) [newline] = a) \<and>
        (a \<noteq> [] \<and> last a = newline \<longrightarrow>
           Join (map Content (Lines (CompareTexts d a a))) [newline] @ [newline] = a))"
proof
  assume lib: "equalTexts (dmp d) a"
  let ?t = "throughRunes a"
  let ?mk = "\<lambda>line. \<lparr>DiffLine.Type = lineType DiffEqual, Content = line\<rparr>"
  have lines: "Lines (CompareTexts d a a) =
      (if a = [] then [] else map ?mk (keptLines (Split ?t [newline])))"
    using lib lineLoop_Lines [of "int (length (Split ?t [newline]))" 0 "Split ?t [newline]"
        "\<lparr>Diff.Type = DiffEqual, Text = ?t\<rparr>" "\<lparr>OldContent = a, NewContent = a, Lines = []\<rparr>"]
    by (simp add: CompareTexts_def equalTexts_def Let_def)
  have eq: "\<forall>l \<in> set (Lines (CompareTexts d a a)). DiffLine.Type l = ''equal''"
    unfolding lines by (simp add: lineType_def)
  have content: "map Content (Lines (CompareTexts d a a)) =
      (if a = [] then [] else keptLines (Split ?t [newline]))"
    unfolding lines by (simp add: comp_def)
  have empty: "throughRunes [] = []"
    by (simp add: throughRunes_def)
  have join: "Join (map Content (Lines (CompareTexts d a a))) [newline] = withoutFinalNewline ?t"
    unfolding content using Join_keptLines_Split [of ?t] empty
    by (auto simp: withoutFinalNewline_def)
  have restore: "butlast a @ [newline] = a" if "a \<noteq> []" "last a = newline"
    using that append_butlast_last_id [of a] by simp
  have valid: "?t = a \<and>
       (a = [] \<or> last a \<noteq> newline \<longrightarrow>
          Join (map Content (Lines (CompareTexts d a a))) [newline] = a) \<and>
       (a \<noteq> [] \<and> last a = newline \<longrightarrow>
          Join (map Content (Lines (CompareTexts d a a))) [newline] @ [newline] = a)"
    if "ValidString a"
  proof -
    from that have t: "?t = a" by (rule ValidString_throughRunes)
    from join restore show ?thesis
      unfolding t by (auto simp: withoutFinalNewline_def)
  qed
  from eq join valid
  show "(\<forall>l \<in> set (Lines (CompareTexts d a a)). DiffLine.Type l = ''equal'') \<and>
     Join (map Content (Lines (CompareTexts d a a))) [newline] =
       withoutFinalNewline (throughRunes a) \<and>
     (ValidString a \<longrightarrow>
        throughRunes a = a \<and>
        (a = [] \<or> last a \<noteq> newline \<longrightarrow>
           Join (map Content (Lines (CompareTexts d a a))) [newline] = a) \<and>
        (a \<noteq> [] \<and> last a = newline \<longrightarrow>
           Join (map Content (Lines (CompareTexts d a a))) [newline] @ [newline] = a))"
    by blast
qed

text \<open>
  The claim as stated fails for a text that is not valid UTF-8: the library answers
  with the string of the runes, the line has the three bytes of U+FFFD where the text
  has the byte \<open>0xFF\<close>, and the lines do not give the text back.
\<close>

theorem diff_of_equal_texts_counterexample:
  "equalTexts (dmp demoDiffer) latin1Text \<and>
   latin1Text = [CHR 0xFF, newline] \<and>
   ValidString latin1Text = False \<and>
   Lines (CompareTexts demoDiffer latin1Text latin1Text) =
     [\<lparr>DiffLine.Type = ''equal'', Content = [CHR 0xEF, CHR 0xBF, CHR 0xBD]\<rparr>] \<and>
   Join (map Content (Lines (CompareTexts demoDiffer latin1Text latin1Text))) [newline] @
     [newline] = [CHR 0xEF, CHR 0xBF, CHR 0xBD, newline] \<and>
   (Join (map Content (Lines (CompareTexts demoDiffer latin1Text latin1Text))) [newline] @
      [newline] = latin1Text) = False"
  by code_simp

theorem diff_of_equal_texts_witness:
  "equalTexts (dmp demoDiffer) demoText \<and>
   ValidString demoText \<and>
   demoText \<noteq> [] \<and> last demoText = newline \<and>
   map Content (Lines (CompareTexts demoDiffer demoText demoText)) =
     [''a'', [], [CHR 0xC3, CHR 0xA9]] \<and>
   map DiffLine.Type (Lines (CompareTexts demoDiffer demoText demoText)) =
     [''equal'', ''equal'', ''equal''] \<and>
   Join (map Content (Lines (CompareTexts demoDiffer demoText demoText))) [newline] @ [newline] =
     demoText"
proof -
  have h: "equalTexts (dmp demoDiffer) demoText"
    by code_simp
  have v: "ValidString demoText"
    by code_simp
  have t: "demoText \<noteq> [] \<and> last demoText = newline"
    by code_simp
  have c: "map Content (Lines (CompareTexts demoDiffer demoText demoText)) =
      [''a'', [], [CHR 0xC3, CHR 0xA9]]"
    by code_simp
  have k: "map DiffLine.Type (Lines (CompareTexts demoDiffer demoText demoText)) =
     [''equal'', ''equal'', ''equal'']"
    by code_simp
  from h v t diff_of_equal_texts [of demoDiffer demoText]
  have "Join (map Content (Lines (CompareTexts demoDiffer demoText demoText))) [newline] @
      [newline] = demoText"
    by blast
  with h v t c k show ?thesis by blast
qed


section \<open>The translation of a glob\<close>

lemma special_chars [simp]:
  "special bslash" "special (CHR ''*'')" "special (CHR ''?'')" "special (CHR ''.'')"
  "special (CHR ''['')" "special (CHR ''^'')" "special (CHR ''$'')"
  "\<not> special (CHR ''/'')"
  by (simp_all add: special_def bslash_def)

lemma bslash_neq [simp]:
  "bslash \<noteq> CHR ''*''" "bslash \<noteq> CHR ''?''" "bslash \<noteq> CHR ''.''" "bslash \<noteq> CHR ''[''"
  "bslash \<noteq> CHR ''^''" "bslash \<noteq> CHR ''$''" "bslash \<noteq> CHR ''/''" "bslash \<noteq> CHR '']''"
  "CHR ''*'' \<noteq> bslash" "CHR ''?'' \<noteq> bslash" "CHR ''.'' \<noteq> bslash" "CHR ''['' \<noteq> bslash"
  "CHR ''^'' \<noteq> bslash" "CHR ''$'' \<noteq> bslash" "CHR ''/'' \<noteq> bslash" "CHR '']'' \<noteq> bslash"
  by (simp_all add: bslash_def)

lemma not_special_neq:
  "\<not> special c \<Longrightarrow> c \<noteq> bslash \<and> c \<noteq> CHR ''*'' \<and> c \<noteq> CHR ''?'' \<and> c \<noteq> CHR ''.'' \<and>
     c \<noteq> CHR ''['' \<and> c \<noteq> CHR ''^'' \<and> c \<noteq> CHR ''$''"
  by (auto simp: special_def)

lemma ReplaceAll_Nil: "old \<noteq> [] \<Longrightarrow> ReplaceAll [] old new = []"
  by (simp add: ReplaceAll.simps)

lemma ReplaceAll_hit:
  "old \<noteq> [] \<Longrightarrow> HasPrefix (c # cs) old \<Longrightarrow>
     ReplaceAll (c # cs) old new = new @ ReplaceAll (drop (length old) (c # cs)) old new"
  by (subst ReplaceAll.simps) simp

lemma ReplaceAll_miss:
  "old \<noteq> [] \<Longrightarrow> \<not> HasPrefix (c # cs) old \<Longrightarrow>
     ReplaceAll (c # cs) old new = c # ReplaceAll cs old new"
  by (subst ReplaceAll.simps) simp

lemma QuoteMeta_Cons: "QuoteMeta (c # cs) = esc c @ QuoteMeta cs"
  by (simp add: esc_def)

text \<open>The first character of a quoted text is a backslash or is not special.\<close>

lemma QuoteMeta_head: "QuoteMeta q = x # r \<Longrightarrow> x = bslash \<or> \<not> special x"
  by (cases q) (auto split: if_splits)

lemma stage1_head: "stage1 q = x # r \<Longrightarrow> x = bslash \<or> x = CHR ''.'' \<or> \<not> special x"
  by (induction q rule: stage1.induct) (auto simp: esc_def split: if_splits)

lemma stage2_head:
  "stage2 q = x # r \<Longrightarrow> x = bslash \<or> x = CHR ''.'' \<or> x = CHR ''['' \<or> \<not> special x"
  by (induction q rule: stage2.induct) (auto simp: esc_def split: if_splits)


lemma HasPrefix_Cons_Cons: "HasPrefix (x # xs) (y # ys) \<longleftrightarrow> x = y \<and> HasPrefix xs ys"
  by (auto simp: HasPrefix_def)

lemma HasPrefix_Nil_Cons: "\<not> HasPrefix [] (y # ys)"
  by (simp add: HasPrefix_def)

lemma HasPrefix_Nil: "HasPrefix xs []"
  by (simp add: HasPrefix_def)

lemmas HasPrefix_simps = HasPrefix_Cons_Cons HasPrefix_Nil_Cons HasPrefix_Nil

lemma QuoteMeta_no_star: "\<not> HasPrefix (QuoteMeta q) (CHR ''*'' # xs)"
  by (cases q) (auto simp: HasPrefix_simps dest: not_special_neq)

lemma QuoteMeta_no_qmark: "\<not> HasPrefix (QuoteMeta q) (CHR ''?'' # xs)"
  by (cases q) (auto simp: HasPrefix_simps dest: not_special_neq)

lemma QuoteMeta_bslash_star:
  "HasPrefix (QuoteMeta q) (bslash # CHR ''*'' # xs) \<Longrightarrow> \<exists>r. q = CHR ''*'' # r"
  by (cases q) (auto simp: HasPrefix_simps dest: not_special_neq split: if_splits)

lemma stage1_skip:
  assumes "\<not> (c = CHR ''*'' \<and> (\<exists>r. q = CHR ''*'' # r))"
  shows "ReplaceAll (esc c @ QuoteMeta q) [bslash, CHR ''*'', bslash, CHR ''*''] new =
     esc c @ ReplaceAll (QuoteMeta q) [bslash, CHR ''*'', bslash, CHR ''*''] new"
proof (cases "special c")
  case True
  have 1: "\<not> HasPrefix (bslash # c # QuoteMeta q) [bslash, CHR ''*'', bslash, CHR ''*'']"
    using assms QuoteMeta_bslash_star [of q "[]"] by (auto simp: HasPrefix_simps)
  have 2: "\<not> HasPrefix (c # QuoteMeta q) [bslash, CHR ''*'', bslash, CHR ''*'']"
    using QuoteMeta_no_star [of q "[bslash, CHR ''*'']"] by (auto simp: HasPrefix_simps)
  from True show ?thesis
    by (simp add: esc_def ReplaceAll_miss [OF _ 1] ReplaceAll_miss [OF _ 2])
next
  case False
  then have "\<not> HasPrefix (c # QuoteMeta q) [bslash, CHR ''*'', bslash, CHR ''*'']"
    by (auto simp: HasPrefix_simps dest: not_special_neq)
  with False show ?thesis
    by (simp add: esc_def ReplaceAll_miss)
qed

lemma stage1_correct:
  "ReplaceAll (QuoteMeta p) [bslash, CHR ''*'', bslash, CHR ''*''] ''.*'' = stage1 p"
proof (induction p rule: stage1.induct)
  case 1
  then show ?case by (simp add: ReplaceAll_Nil)
next
  case (2 c)
  have "ReplaceAll (esc c @ QuoteMeta []) [bslash, CHR ''*'', bslash, CHR ''*''] ''.*'' =
     esc c @ ReplaceAll (QuoteMeta []) [bslash, CHR ''*'', bslash, CHR ''*''] ''.*''"
    by (rule stage1_skip) simp
  then show ?case by (simp add: QuoteMeta_Cons ReplaceAll_Nil del: QuoteMeta.simps(2))
next
  case (3 c d cs)
  show ?case
  proof (cases "c = CHR ''*'' \<and> d = CHR ''*''")
    case True
    then have "QuoteMeta (c # d # cs) = [bslash, CHR ''*'', bslash, CHR ''*''] @ QuoteMeta cs"
      by simp
    moreover have "ReplaceAll ([bslash, CHR ''*'', bslash, CHR ''*''] @ QuoteMeta cs)
        [bslash, CHR ''*'', bslash, CHR ''*''] ''.*'' =
      ''.*'' @ ReplaceAll (QuoteMeta cs) [bslash, CHR ''*'', bslash, CHR ''*''] ''.*''"
      by (simp add: ReplaceAll_hit HasPrefix_simps)
    ultimately show ?thesis using True 3 by simp
  next
    case False
    then have "ReplaceAll (esc c @ QuoteMeta (d # cs)) [bslash, CHR ''*'', bslash, CHR ''*''] ''.*'' =
       esc c @ ReplaceAll (QuoteMeta (d # cs)) [bslash, CHR ''*'', bslash, CHR ''*''] ''.*''"
      by (intro stage1_skip) simp
    moreover from False have "stage1 (c # d # cs) = esc c @ stage1 (d # cs)"
      by auto
    moreover note "3.IH" (2) [OF False]
    ultimately show ?thesis
      by (simp only: QuoteMeta_Cons [of c])
  qed
qed


lemma ReplaceAll_plain:
  "x \<noteq> bslash \<Longrightarrow> ReplaceAll (x # t) (bslash # old) new = x # ReplaceAll t (bslash # old) new"
  by (simp add: ReplaceAll_miss HasPrefix_simps)

lemma ReplaceAll_skip_esc:
  assumes "c \<noteq> k" and "\<not> HasPrefix t [k]"
  shows "ReplaceAll (esc c @ t) [bslash, k] new = esc c @ ReplaceAll t [bslash, k] new"
proof (cases "special c")
  case True
  have 1: "\<not> HasPrefix (bslash # c # t) [bslash, k]"
    using assms(1) by (simp add: HasPrefix_simps)
  have 2: "\<not> HasPrefix (c # t) [bslash, k]"
    using assms(2) by (simp add: HasPrefix_simps)
  from True show ?thesis
    by (simp add: esc_def ReplaceAll_miss [OF _ 1] ReplaceAll_miss [OF _ 2])
next
  case False
  then show ?thesis
    by (simp add: esc_def ReplaceAll_plain not_special_neq)
qed

lemma stage1_no_star: "\<not> HasPrefix (stage1 q) [CHR ''*'']"
proof (cases "stage1 q")
  case Nil
  then show ?thesis by (simp add: HasPrefix_simps)
next
  case (Cons x r)
  with stage1_head [OF Cons] show ?thesis
    by (auto simp: HasPrefix_simps dest: not_special_neq)
qed

lemma stage2_no_qmark: "\<not> HasPrefix (stage2 q) [CHR ''?'']"
proof (cases "stage2 q")
  case Nil
  then show ?thesis by (simp add: HasPrefix_simps)
next
  case (Cons x r)
  with stage2_head [OF Cons] show ?thesis
    by (auto simp: HasPrefix_simps dest: not_special_neq)
qed

lemma esc_star: "esc (CHR ''*'') = [bslash, CHR ''*'']"
  by (simp add: esc_def)

lemma esc_qmark: "esc (CHR ''?'') = [bslash, CHR ''?'']"
  by (simp add: esc_def)

lemma ReplaceAll_hit2:
  "ReplaceAll (bslash # k # t) [bslash, k] new = new @ ReplaceAll t [bslash, k] new"
  by (simp add: ReplaceAll_hit HasPrefix_simps)

lemma stage2_correct:
  "ReplaceAll (stage1 p) [bslash, CHR ''*''] ''[^/]*'' = stage2 p"
proof (induction p rule: stage2.induct)
  case 1
  then show ?case by (simp add: ReplaceAll_Nil)
next
  case (2 c)
  show ?case
  proof (cases "c = CHR ''*''")
    case True
    then show ?thesis by (simp add: esc_star ReplaceAll_hit2 ReplaceAll_Nil)
  next
    case False
    with ReplaceAll_skip_esc [of c "CHR ''*''" "[]" "''[^/]*''"] show ?thesis
      by (simp add: HasPrefix_simps ReplaceAll_Nil)
  qed
next
  case (3 c d cs)
  consider (two) "c = CHR ''*''" "d = CHR ''*''" | (one) "c = CHR ''*''" "d \<noteq> CHR ''*''"
    | (lit) "c \<noteq> CHR ''*''"
    by blast
  then show ?case
  proof cases
    case two
    with "3.IH" (1) show ?thesis
      by (simp add: ReplaceAll_plain)
  next
    case one
    with "3.IH" (2) show ?thesis
      by (simp add: esc_star ReplaceAll_hit2)
  next
    case lit
    with "3.IH" (3) ReplaceAll_skip_esc [OF lit stage1_no_star, of "d # cs" "''[^/]*''"]
    show ?thesis by simp
  qed
qed

lemma stage3_correct:
  "ReplaceAll (stage2 p) [bslash, CHR ''?''] ''.'' = concat (map glob_text (glob_tokens p))"
proof (induction p rule: glob_tokens.induct)
  case 1
  then show ?case by (simp add: ReplaceAll_Nil)
next
  case (2 c)
  consider (star) "c = CHR ''*''" | (any) "c = CHR ''?''" | (lit) "c \<noteq> CHR ''*''" "c \<noteq> CHR ''?''"
    by blast
  then show ?case
  proof cases
    case star
    then show ?thesis by (simp add: ReplaceAll_plain ReplaceAll_Nil)
  next
    case any
    then show ?thesis by (simp add: esc_qmark ReplaceAll_hit2 ReplaceAll_Nil)
  next
    case lit
    with ReplaceAll_skip_esc [of c "CHR ''?''" "[]" "''.''"] show ?thesis
      by (simp add: HasPrefix_simps ReplaceAll_Nil)
  qed
next
  case (3 c d cs)
  consider (two) "c = CHR ''*''" "d = CHR ''*''" | (one) "c = CHR ''*''" "d \<noteq> CHR ''*''"
    | (any) "c = CHR ''?''" | (lit) "c \<noteq> CHR ''*''" "c \<noteq> CHR ''?''"
    by blast
  then show ?case
  proof cases
    case two
    with "3.IH" (1) show ?thesis
      by (simp add: ReplaceAll_plain)
  next
    case one
    with "3.IH" (2) show ?thesis
      by (simp add: ReplaceAll_plain)
  next
    case any
    with "3.IH" (3) show ?thesis
      by (simp add: esc_qmark ReplaceAll_hit2)
  next
    case lit
    with "3.IH" (4) ReplaceAll_skip_esc [OF lit(2) stage2_no_qmark, of "d # cs" "''.''"]
    show ?thesis by simp
  qed
qed

lemma globToRegex_text:
  "globToRegex p = ''^'' @ concat (map glob_text (glob_tokens p)) @ ''$''"
  by (simp add: globToRegex_def stage1_correct stage2_correct stage3_correct Let_def)


lemma compile_char:
  assumes "parse_atom (c # cs) = Some (a, d # rest)" "c \<noteq> CHR ''^''" "c \<noteq> CHR ''$''"
    "d \<noteq> CHR ''*''"
  shows "regexp_Compile (c # cs) = map_option (Cons (RChar a)) (regexp_Compile (d # rest))"
  using assms by simp

lemma compile_star:
  assumes "parse_atom (c # cs) = Some (a, CHR ''*'' # rest)" "c \<noteq> CHR ''^''" "c \<noteq> CHR ''$''"
  shows "regexp_Compile (c # cs) = map_option (Cons (RStar a)) (regexp_Compile rest)"
  using assms by simp

lemma text_head:
  "concat (map glob_text ts) @ ''$'' = x # r \<Longrightarrow> x \<noteq> CHR ''*''"
proof (cases ts)
  case Nil
  assume "concat (map glob_text ts) @ ''$'' = x # r"
  with Nil show ?thesis by auto
next
  case (Cons t ts')
  assume "concat (map glob_text ts) @ ''$'' = x # r"
  with Cons show ?thesis
    by (cases t) (auto simp: esc_def split: if_splits dest: not_special_neq)
qed

lemma text_nonempty: "\<exists>x r. concat (map glob_text ts) @ ''$'' = x # r"
  by (cases "concat (map glob_text ts) @ ''$''") simp_all

lemma compile_glob_text:
  "regexp_Compile (concat (map glob_text ts) @ ''$'') = Some (map glob_item ts @ [REnd])"
proof (induction ts)
  case Nil
  then show ?case by (simp add: parse_atom_def)
next
  case (Cons t ts)
  obtain x r where xr: "concat (map glob_text ts) @ ''$'' = x # r"
    using text_nonempty by blast
  from text_head [OF xr] have nostar: "x \<noteq> CHR ''*''" .
  show ?case
  proof (cases t)
    case (GLit c)
    show ?thesis
    proof (cases "special c")
      case True
      have "regexp_Compile (bslash # c # x # r) =
          map_option (Cons (RChar (RLit c))) (regexp_Compile (x # r))"
        using True nostar by (intro compile_char) (simp_all add: parse_atom_def)
      with GLit True Cons.IH xr show ?thesis by (simp add: esc_def)
    next
      case False
      have "regexp_Compile (c # x # r) =
          map_option (Cons (RChar (RLit c))) (regexp_Compile (x # r))"
        using False nostar not_special_neq [OF False]
        by (intro compile_char) (simp_all add: parse_atom_def)
      with GLit False Cons.IH xr show ?thesis by (simp add: esc_def)
    qed
  next
    case GAny
    have "regexp_Compile (CHR ''.'' # x # r) =
        map_option (Cons (RChar RAnyNotNL)) (regexp_Compile (x # r))"
      using nostar by (intro compile_char) (simp_all add: parse_atom_def)
    with GAny Cons.IH xr show ?thesis by simp
  next
    case GStar
    have "regexp_Compile (CHR ''['' # CHR ''^'' # CHR ''/'' # CHR '']'' # CHR ''*'' # x # r) =
        map_option (Cons (RStar (RNot (CHR ''/'')))) (regexp_Compile (x # r))"
      by (intro compile_star) (simp_all add: parse_atom_def)
    with GStar Cons.IH xr show ?thesis by simp
  next
    case GStarStar
    have "regexp_Compile (CHR ''.'' # CHR ''*'' # x # r) =
        map_option (Cons (RStar RAnyNotNL)) (regexp_Compile (x # r))"
      by (intro compile_star) (simp_all add: parse_atom_def)
    with GStarStar Cons.IH xr show ?thesis by simp
  qed
qed

lemma compile_globToRegex: "regexp_Compile (globToRegex p) = Some (glob_regexp p)"
  by (simp add: globToRegex_text glob_regexp_def compile_glob_text
      del: regexp_Compile.simps(2))
     (simp add: compile_glob_text)


lemma match_star:
  assumes "\<And>b v. match_here re b v \<longleftrightarrow> v \<in> L"
  shows "match_here (RStar a # re) b s \<longleftrightarrow>
     (\<exists>u v. s = u @ v \<and> (\<forall>x \<in> set u. atom_ok a x) \<and> v \<in> L)"
proof (induction s arbitrary: b)
  case Nil
  then show ?case by (simp add: assms)
next
  case (Cons x s)
  show ?case
  proof
    assume "match_here (RStar a # re) b (x # s)"
    then consider "x # s \<in> L" | "atom_ok a x" "match_here (RStar a # re) False s"
      by (auto simp: assms)
    then show "\<exists>u v. x # s = u @ v \<and> (\<forall>x \<in> set u. atom_ok a x) \<and> v \<in> L"
    proof cases
      case 1
      then have "x # s = [] @ (x # s) \<and> (\<forall>y \<in> set []. atom_ok a y) \<and> x # s \<in> L" by simp
      then show ?thesis by blast
    next
      case 2
      from 2(2) Cons.IH obtain u v where "s = u @ v" "\<forall>y \<in> set u. atom_ok a y" "v \<in> L"
        by blast
      with 2(1) have "x # s = (x # u) @ v \<and> (\<forall>y \<in> set (x # u). atom_ok a y) \<and> v \<in> L"
        by simp
      then show ?thesis by blast
    qed
  next
    assume "\<exists>u v. x # s = u @ v \<and> (\<forall>x \<in> set u. atom_ok a x) \<and> v \<in> L"
    then obtain u v where uv: "x # s = u @ v" "\<forall>y \<in> set u. atom_ok a y" "v \<in> L"
      by blast
    show "match_here (RStar a # re) b (x # s)"
    proof (cases u)
      case Nil
      with uv have "x # s \<in> L" by simp
      then show ?thesis by (simp add: assms)
    next
      case (Cons y u')
      with uv have "x = y" "s = u' @ v" "atom_ok a x" "\<forall>z \<in> set u'. atom_ok a z"
        by simp_all
      with uv(3) Cons.IH [of False] show ?thesis by auto
    qed
  qed
qed

lemma one_char_lang:
  "s \<in> {u @ v |u v. u \<in> {[x] |x. P x} \<and> v \<in> L} \<longleftrightarrow> (\<exists>x r. s = x # r \<and> P x \<and> r \<in> L)"
proof
  assume "s \<in> {u @ v |u v. u \<in> {[x] |x. P x} \<and> v \<in> L}"
  then obtain x v where "s = [x] @ v" "P x" "v \<in> L" by blast
  then show "\<exists>x r. s = x # r \<and> P x \<and> r \<in> L" by simp
next
  assume "\<exists>x r. s = x # r \<and> P x \<and> r \<in> L"
  then obtain x r where "s = [x] @ r" "P x" "r \<in> L" by auto
  then show "s \<in> {u @ v |u v. u \<in> {[x] |x. P x} \<and> v \<in> L}" by blast
qed

lemma match_glob_items:
  "match_here (map glob_item ts @ [REnd]) b s \<longleftrightarrow> s \<in> glob_lang ts"
proof (induction ts arbitrary: b s)
  case Nil
  then show ?case by simp
next
  case (Cons t ts)
  show ?case
  proof (cases t)
    case (GLit c)
    have "s \<in> glob_lang (GLit c # ts) \<longleftrightarrow> (\<exists>x r. s = x # r \<and> x = c \<and> r \<in> glob_lang ts)"
      using one_char_lang [of s "\<lambda>x. x = c" "glob_lang ts"] by simp
    with GLit show ?thesis using Cons.IH by (cases s) simp_all
  next
    case GAny
    have "s \<in> glob_lang (GAny # ts) \<longleftrightarrow> (\<exists>x r. s = x # r \<and> x \<noteq> newline \<and> r \<in> glob_lang ts)"
      using one_char_lang [of s "\<lambda>x. x \<noteq> newline" "glob_lang ts"] by simp
    with GAny show ?thesis using Cons.IH by (cases s) simp_all
  next
    case GStar
    have "match_here (RStar (RNot (CHR ''/'')) # map glob_item ts @ [REnd]) b s \<longleftrightarrow>
        (\<exists>u v. s = u @ v \<and> (\<forall>x \<in> set u. atom_ok (RNot (CHR ''/'')) x) \<and> v \<in> glob_lang ts)"
      by (rule match_star) (rule Cons.IH)
    with GStar show ?thesis by auto
  next
    case GStarStar
    have "match_here (RStar RAnyNotNL # map glob_item ts @ [REnd]) b s \<longleftrightarrow>
        (\<exists>u v. s = u @ v \<and> (\<forall>x \<in> set u. atom_ok RAnyNotNL x) \<and> v \<in> glob_lang ts)"
      by (rule match_star) (rule Cons.IH)
    with GStarStar show ?thesis by auto
  qed
qed

lemma MatchString_glob_regexp: "MatchString (glob_regexp p) s \<longleftrightarrow> s \<in> glob_lang (glob_tokens p)"
  by (simp add: glob_regexp_def MatchString_anchored match_glob_items)


text \<open>
  What the translation does, for every glob and every string: the text is the anchored
  concatenation of the texts of the tokens, with every literal character escaped as
  \<open>QuoteMeta\<close> escapes it; it compiles; and the compiled expression matches a string
  exactly when the string is in the language of the tokens, where a star stands for
  a string without a slash, and two stars and a question mark stand for a string and
  a character without a newline. The last two parts speak of the model of the
  regular expressions: they are statements about Go for ASCII globs and ASCII
  strings.
\<close>

lemma glob_translation:
  "globToRegex p = ''^'' @ concat (map glob_text (glob_tokens p)) @ ''$'' \<and>
   regexp_Compile (globToRegex p) = Some (glob_regexp p) \<and>
   (MatchString (glob_regexp p) s \<longleftrightarrow> s \<in> glob_lang (glob_tokens p))"
  using globToRegex_text [of p] compile_globToRegex [of p] MatchString_glob_regexp [of p s]
  by blast

lemma glob_file_rule:
  "ShouldExclude MatchString (NewExcludeMatcher regexp_Compile [globRule p]) q False \<longleftrightarrow>
     Base q \<in> glob_lang (glob_tokens p) \<or> q \<in> glob_lang (glob_tokens p)"
  by (simp add: ShouldExclude_iff rule_hits_def compileRule_def compiled_regex_def globRule_def
      compile_globToRegex MatchString_glob_regexp)

text \<open>
  C2. The examples of the claim hold: the rule \<open>*.log\<close> excludes \<open>app.log\<close> and
  \<open>dir/app.log\<close>, by its base name, and not \<open>app.log.bak\<close>; \<open>**/test\<close> excludes
  \<open>a/b/test\<close>, and \<open>*/test\<close> does not, a star not matching across a slash. But the
  dot that stands for a question mark and for two stars does not match a newline,
  while the class that stands for one star does: the rule \<open>?\<close> does not exclude the
  file whose name is one newline, and \<open>**/test\<close> does not exclude \<open>test\<close> under a
  directory with a newline in its name.
\<close>

theorem glob_wildcards_newline:
  "ShouldExclude MatchString (NewExcludeMatcher regexp_Compile [globRule ''*.log'']) ''app.log'' False \<and>
   ShouldExclude MatchString (NewExcludeMatcher regexp_Compile [globRule ''*.log''])
     ''dir/app.log'' False \<and>
   \<not> ShouldExclude MatchString (NewExcludeMatcher regexp_Compile [globRule ''*.log''])
     ''app.log.bak'' False \<and>
   ShouldExclude MatchString (NewExcludeMatcher regexp_Compile [globRule ''**/test''])
     ''a/b/test'' False \<and>
   \<not> ShouldExclude MatchString (NewExcludeMatcher regexp_Compile [globRule ''*/test''])
     ''a/b/test'' False \<and>
   globToRegex ''?'' = ''^.$'' \<and>
   ShouldExclude MatchString (NewExcludeMatcher regexp_Compile [globRule ''?'']) ''a'' False \<and>
   \<not> ShouldExclude MatchString (NewExcludeMatcher regexp_Compile [globRule ''?'']) [newline] False \<and>
   \<not> ShouldExclude MatchString (NewExcludeMatcher regexp_Compile [globRule ''**/test''])
     (''a'' @ [newline] @ ''b/test'') False \<and>
   ShouldExclude MatchString (NewExcludeMatcher regexp_Compile [globRule ''*''])
     (''a'' @ [newline] @ ''b'') False"
  by code_simp


end
